theory Spec2Isabelle
  imports Complex_Main "HOL-Library.Log_Nat" "HOL-Library.AList" "HOL-Library.Sublist"
begin

section \<open>Python values and exceptions\<close>

text \<open>
  The program receives one decoded JSON document and works on it with dynamically typed
  operations, each of which may raise.  The values a decoded document can hold are
  modelled by \<open>pyval\<close>; every raise of the source is a value \<open>Inl e\<close> of the result
  type \<open>py_error + 'a\<close>.  Characters are HOL characters: the only characters the
  program inspects are the ASCII rank and suit symbols.
\<close>

datatype py_error =
  TypeError | KeyError | IndexError | ValueError
  | AttributeError | ZeroDivisionError | OverflowError

text \<open>
  A Python float is an IEEE binary64 value: a finite rational, an infinity or a NaN.
  The sign of a zero is not represented: the program never divides by a zero without
  raising, and never prints a float, so the sign cannot be observed.
\<close>

datatype pyfloat = Fin rat | PosInf | NegInf | NaN

datatype pyval =
  PNone
  | PBool bool
  | PInt int
  | PFloat pyfloat
  | PStr string
  | PList "pyval list"
  | PDict "(string \<times> pyval) list"

type_synonym 'a result = "py_error + 'a"

definition and_then :: "'a result \<Rightarrow> ('a \<Rightarrow> 'b result) \<Rightarrow> 'b result" where
  "and_then m f = (case m of Inl e \<Rightarrow> Inl e | Inr x \<Rightarrow> f x)"

text \<open>A list comprehension whose element expression may raise: the first raise wins.\<close>

fun map_result :: "('a \<Rightarrow> 'b result) \<Rightarrow> 'a list \<Rightarrow> 'b list result" where
  "map_result f [] = Inr []"
| "map_result f (x # xs) =
     and_then (f x) (\<lambda>y. and_then (map_result f xs) (\<lambda>ys. Inr (y # ys)))"

text \<open>\<open>xs[i]\<close> on a Python list held as a HOL list.\<close>

definition nth_result :: "'a list \<Rightarrow> nat \<Rightarrow> 'a result" where
  "nth_result xs i = (if i < length xs then Inr (xs ! i) else Inl IndexError)"

text \<open>
  \<open>v[i]\<close> for a constant index \<open>i \<ge> 0\<close>: a string yields the one-character string at
  that position, a list its element; an object decoded from JSON has string keys only, so
  an integer subscript is a missing key; every other value is not subscriptable.
\<close>

fun py_index :: "pyval \<Rightarrow> nat \<Rightarrow> pyval result" where
  "py_index (PStr s) i = (if i < length s then Inr (PStr [s ! i]) else Inl IndexError)"
| "py_index (PList xs) i = nth_result xs i"
| "py_index (PDict kvs) i = Inl KeyError"
| "py_index v i = Inl TypeError"

text \<open>Lists and objects are unhashable; every other decoded value can be a key.\<close>

fun py_hashable :: "pyval \<Rightarrow> bool" where
  "py_hashable (PList xs) = False"
| "py_hashable (PDict kvs) = False"
| "py_hashable v = True"

text \<open>
  Two hashable values are the same set element or dictionary key when Python's \<open>==\<close>
  holds: booleans are the integers 0 and 1, and a float equals the integer of the same
  value.  \<open>hash_key\<close> maps a value to the canonical representative of its class, so that
  key equality is equality of representatives.  (The JSON decoder returns one shared
  object for every NaN, which a set treats as one element.)
\<close>

fun hash_key :: "pyval \<Rightarrow> pyval" where
  "hash_key (PBool b) = PInt (if b then 1 else 0)"
| "hash_key (PFloat (Fin q)) = (if of_int \<lfloor>q\<rfloor> = q then PInt \<lfloor>q\<rfloor> else PFloat (Fin q))"
| "hash_key v = v"

text \<open>\<open>set(xs)\<close>: raises on the first unhashable element, else the distinct keys.\<close>

definition py_set :: "pyval list \<Rightarrow> pyval list result" where
  "py_set xs = (if list_all py_hashable xs then Inr (remdups (map hash_key xs))
                else Inl TypeError)"

section \<open>Basic card utilities\<close>

definition RANKS :: string where
  "RANKS = ''23456789TJQKA''"

text \<open>\<open>RANK_VALUE = {r: i + 2 for i, r in enumerate(RANKS)}\<close>, keyed by one-character strings.\<close>

definition RANK_VALUE :: "string \<rightharpoonup> int" where
  "RANK_VALUE = map_of (map (\<lambda>(i, r). ([r], int i + 2)) (enumerate 0 RANKS))"

text \<open>\<open>RANK_VALUE[k]\<close>: an unhashable key is a TypeError, a missing one a KeyError.\<close>

definition rank_value_lookup :: "pyval \<Rightarrow> int result" where
  "rank_value_lookup k =
     (if \<not> py_hashable k then Inl TypeError
      else case k of
        PStr s \<Rightarrow> (case RANK_VALUE s of Some v \<Rightarrow> Inr v | None \<Rightarrow> Inl KeyError)
      | _ \<Rightarrow> Inl KeyError)"

definition parse_card :: "pyval \<Rightarrow> (int \<times> pyval) result" where
  "parse_card card_str =
     and_then (py_index card_str 0) (\<lambda>c0.
     and_then (rank_value_lookup c0) (\<lambda>v.
     and_then (py_index card_str 1) (\<lambda>c1.
     Inr (v, c1))))"

text \<open>
  \<open>is_straight_3\<close> reads \<open>r[0]\<close>, \<open>r[1]\<close> and, only when the first comparison holds
  (\<open>and\<close> short-circuits), \<open>r[1]\<close> and \<open>r[2]\<close>.
\<close>

definition is_straight_3 :: "int list \<Rightarrow> (bool \<times> int) result" where
  "is_straight_3 rank_values =
     (let r = sort rank_values in
      and_then (nth_result r 0) (\<lambda>r0.
      and_then (nth_result r 1) (\<lambda>r1.
      and_then (if r0 + 1 = r1
                then and_then (nth_result r 1) (\<lambda>r1'.
                     and_then (nth_result r 2) (\<lambda>r2. Inr (r1' + 1 = r2)))
                else Inr False) (\<lambda>consecutive.
      if consecutive then and_then (nth_result r 2) (\<lambda>r2. Inr (True, r2))
      else if set r = {14, 2, 3} then Inr (True, 3)
      else Inr (False, 0)))))"

section \<open>Hand category evaluation\<close>

text \<open>\<open>hole + [table]\<close>: list concatenation; any other left operand raises TypeError.\<close>

fun py_list_concat :: "pyval \<Rightarrow> pyval list \<Rightarrow> pyval list result" where
  "py_list_concat (PList xs) ys = Inr (xs @ ys)"
| "py_list_concat v ys = Inl TypeError"

text \<open>\<open>counts[v] = counts.get(v, 0) + 1\<close> on a dictionary held as an association list.\<close>

definition bump :: "int \<Rightarrow> (int \<times> nat) list \<Rightarrow> (int \<times> nat) list" where
  "bump v counts =
     AList.update v ((case map_of counts v of None \<Rightarrow> 0 | Some c \<Rightarrow> c) + 1) counts"

definition count_values :: "int list \<Rightarrow> nat list" where
  "count_values rank_values = map snd (fold bump rank_values [])"

definition hand_category :: "pyval \<Rightarrow> pyval \<Rightarrow> int result" where
  "hand_category hole table =
     and_then (py_list_concat hole [table]) (\<lambda>cards.
     and_then (map_result parse_card cards) (\<lambda>parsed.
     let rank_values = map fst parsed; suits = map snd parsed in
     and_then (py_set suits) (\<lambda>suit_set.
     let flush = (length suit_set = 1);
         counts = count_values rank_values in
     and_then (is_straight_3 rank_values) (\<lambda>(straight, _).
     if straight \<and> flush then Inr 5
     else if 3 \<in> set counts then Inr 4
     else if straight then Inr 3
     else if flush then Inr 2
     else if 2 \<in> set counts then Inr 1
     else Inr 0))))"

section \<open>Comparing two hands\<close>

text \<open>The \<open>for m, o in zip(my_vals, opp_vals)\<close> loop and the \<open>return 0.5\<close> after it.\<close>

fun compare_loop :: "(int \<times> int) list \<Rightarrow> pyfloat" where
  "compare_loop [] = Fin (1 / 2)"
| "compare_loop ((m, o') # rest) =
     (if m > o' then Fin 1 else if o' > m then Fin 0 else compare_loop rest)"

text \<open>\<open>sorted([parse_card(c)[0] for c in cards + [table]], reverse=True)\<close>.\<close>

definition sorted_values :: "pyval \<Rightarrow> pyval \<Rightarrow> int list result" where
  "sorted_values cards table =
     and_then (py_list_concat cards [table]) (\<lambda>cs.
     and_then (map_result (\<lambda>c. and_then (parse_card c) (\<lambda>p. Inr (fst p))) cs) (\<lambda>vs.
     Inr (rev (sort vs))))"

definition wheel_remap :: "int list \<Rightarrow> int list" where
  "wheel_remap vals = (if set vals = {14, 3, 2} then [3, 2, 1] else vals)"

definition compare_hands_internal :: "pyval \<Rightarrow> pyval \<Rightarrow> pyval \<Rightarrow> pyfloat result" where
  "compare_hands_internal my_cards table opp_cards =
     and_then (hand_category my_cards table) (\<lambda>my_rank.
     and_then (hand_category opp_cards table) (\<lambda>opp_rank.
     if my_rank > opp_rank then Inr (Fin 1)
     else if opp_rank > my_rank then Inr (Fin 0)
     else
       and_then (sorted_values my_cards table) (\<lambda>my_vals.
       and_then (sorted_values opp_cards table) (\<lambda>opp_vals.
       let (my_vals', opp_vals') =
             (if my_rank = 5 \<or> my_rank = 3
              then (wheel_remap my_vals, wheel_remap opp_vals)
              else (my_vals, opp_vals))
       in Inr (compare_loop (zip my_vals' opp_vals'))))))"

section \<open>Binary64 arithmetic\<close>

text \<open>
  Python floats are IEEE 754 binary64 values and every arithmetic operation rounds its
  exact result to the nearest representable value, ties to the value with an even
  significand.  \<open>flog2 x\<close> is the binary exponent \<open>\<lfloor>log\<^sub>2 x\<rfloor>\<close> of a positive
  rational; the significand has 53 bits, and below \<open>2\<^sup>-\<^sup>1\<^sup>0\<^sup>2\<^sup>2\<close> the spacing of the
  subnormal values stays \<open>2\<^sup>-\<^sup>1\<^sup>0\<^sup>7\<^sup>4\<close>.
\<close>

definition flog2 :: "rat \<Rightarrow> int" where
  "flog2 x = (if 1 \<le> x then bitlen \<lfloor>x\<rfloor> - 1 else - bitlen (\<lceil>1 / x\<rceil> - 1))"

definition round_half_even :: "rat \<Rightarrow> int" where
  "round_half_even x =
     (let n = \<lfloor>x\<rfloor>; d = x - of_int n
      in if d < 1 / 2 then n else if 1 / 2 < d then n + 1
         else if even n then n else n + 1)"

definition quantum_exp :: "rat \<Rightarrow> int" where
  "quantum_exp x = max (- 1074) (flog2 \<bar>x\<bar> - 52)"

definition round_binary64 :: "rat \<Rightarrow> rat" where
  "round_binary64 x =
     (if x = 0 then 0
      else of_int (round_half_even (x / 2 powi quantum_exp x)) * 2 powi quantum_exp x)"

text \<open>The result of a float operation whose exact value is \<open>x\<close>: overflow gives an infinity.\<close>

definition float_of_rat :: "rat \<Rightarrow> pyfloat" where
  "float_of_rat x =
     (let y = round_binary64 x
      in if 2 ^ 1024 \<le> y then PosInf else if y \<le> - (2 ^ 1024) then NegInf else Fin y)"

text \<open>A decimal float literal of the source, such as \<open>0.35\<close>.\<close>

definition float_literal :: "rat \<Rightarrow> pyfloat" where
  "float_literal x = float_of_rat x"

fun float_sign :: "pyfloat \<Rightarrow> int" where
  "float_sign (Fin a) = (if a < 0 then - 1 else if a = 0 then 0 else 1)"
| "float_sign PosInf = 1"
| "float_sign NegInf = - 1"
| "float_sign NaN = 0"

fun float_neg :: "pyfloat \<Rightarrow> pyfloat" where
  "float_neg (Fin a) = Fin (- a)"
| "float_neg PosInf = NegInf"
| "float_neg NegInf = PosInf"
| "float_neg NaN = NaN"

fun float_add :: "pyfloat \<Rightarrow> pyfloat \<Rightarrow> pyfloat" where
  "float_add (Fin a) (Fin b) = float_of_rat (a + b)"
| "float_add NaN y = NaN"
| "float_add x NaN = NaN"
| "float_add PosInf NegInf = NaN"
| "float_add NegInf PosInf = NaN"
| "float_add PosInf y = PosInf"
| "float_add NegInf y = NegInf"
| "float_add x y = y"

definition float_sub :: "pyfloat \<Rightarrow> pyfloat \<Rightarrow> pyfloat" where
  "float_sub x y = float_add x (float_neg y)"

fun float_mul :: "pyfloat \<Rightarrow> pyfloat \<Rightarrow> pyfloat" where
  "float_mul (Fin a) (Fin b) = float_of_rat (a * b)"
| "float_mul NaN y = NaN"
| "float_mul x NaN = NaN"
| "float_mul x y =
     (let s = float_sign x * float_sign y
      in if s = 0 then NaN else if 0 < s then PosInf else NegInf)"

text \<open>The quotient of two floats when the divisor is not zero.\<close>

fun float_quot :: "pyfloat \<Rightarrow> pyfloat \<Rightarrow> pyfloat" where
  "float_quot (Fin a) (Fin b) = float_of_rat (a / b)"
| "float_quot NaN y = NaN"
| "float_quot x NaN = NaN"
| "float_quot (Fin a) y = Fin 0"
| "float_quot x (Fin b) = (if 0 < float_sign x * float_sign (Fin b) then PosInf else NegInf)"
| "float_quot x y = NaN"

definition float_div :: "pyfloat \<Rightarrow> pyfloat \<Rightarrow> pyfloat result" where
  "float_div x y = (if y = Fin 0 then Inl ZeroDivisionError else Inr (float_quot x y))"

text \<open>Comparisons: every comparison with a NaN is false.\<close>

fun float_lt :: "pyfloat \<Rightarrow> pyfloat \<Rightarrow> bool" where
  "float_lt (Fin a) (Fin b) = (a < b)"
| "float_lt NaN y = False"
| "float_lt x NaN = False"
| "float_lt x NegInf = False"
| "float_lt NegInf y = True"
| "float_lt PosInf y = False"
| "float_lt x PosInf = True"

definition float_gt :: "pyfloat \<Rightarrow> pyfloat \<Rightarrow> bool" where
  "float_gt x y = float_lt y x"

text \<open>\<open>min(a, b)\<close> keeps \<open>a\<close> unless \<open>b < a\<close>; \<open>max(a, b)\<close> keeps \<open>a\<close> unless \<open>b > a\<close>.\<close>

definition py_min :: "pyfloat \<Rightarrow> pyfloat \<Rightarrow> pyfloat" where
  "py_min a b = (if float_lt b a then b else a)"

definition py_max :: "pyfloat \<Rightarrow> pyfloat \<Rightarrow> pyfloat" where
  "py_max a b = (if float_gt b a then b else a)"

text \<open>
  Converting an integer to a float and dividing two integers both round correctly and
  raise OverflowError when the result is too large for a float.
\<close>

definition float_of_int :: "int \<Rightarrow> pyfloat result" where
  "float_of_int i =
     (case float_of_rat (of_int i) of Fin q \<Rightarrow> Inr (Fin q) | _ \<Rightarrow> Inl OverflowError)"

definition int_true_divide :: "int \<Rightarrow> int \<Rightarrow> pyfloat result" where
  "int_true_divide a b =
     (if b = 0 then Inl ZeroDivisionError
      else case float_of_rat (of_int a / of_int b) of
             Fin q \<Rightarrow> Inr (Fin q)
           | _ \<Rightarrow> Inl OverflowError)"

section \<open>Python operators on decoded values\<close>

datatype pynum = NumInt int | NumFloat pyfloat

text \<open>The numeric types: \<open>bool\<close> is a subtype of \<open>int\<close>.\<close>

fun as_number :: "pyval \<Rightarrow> pynum option" where
  "as_number (PBool b) = Some (NumInt (if b then 1 else 0))"
| "as_number (PInt i) = Some (NumInt i)"
| "as_number (PFloat f) = Some (NumFloat f)"
| "as_number v = None"

definition to_float :: "pynum \<Rightarrow> pyfloat result" where
  "to_float n = (case n of NumInt i \<Rightarrow> float_of_int i | NumFloat f \<Rightarrow> Inr f)"

text \<open>
  \<open>x + y\<close>: integer addition, float addition after converting an integer operand,
  concatenation of two strings or two lists, and TypeError otherwise.
\<close>

definition py_add :: "pyval \<Rightarrow> pyval \<Rightarrow> pyval result" where
  "py_add x y =
     (case (as_number x, as_number y) of
        (Some (NumInt a), Some (NumInt b)) \<Rightarrow> Inr (PInt (a + b))
      | (Some m, Some n) \<Rightarrow>
          and_then (to_float m) (\<lambda>f. and_then (to_float n) (\<lambda>g. Inr (PFloat (float_add f g))))
      | _ \<Rightarrow>
          (case (x, y) of
             (PStr s, PStr t) \<Rightarrow> Inr (PStr (s @ t))
           | (PList xs, PList ys) \<Rightarrow> Inr (PList (xs @ ys))
           | _ \<Rightarrow> Inl TypeError))"

text \<open>\<open>x > k\<close> for an integer constant \<open>k\<close>: exact for a number, TypeError otherwise.\<close>

definition py_gt_int :: "pyval \<Rightarrow> int \<Rightarrow> bool result" where
  "py_gt_int x k =
     (case as_number x of
        Some (NumInt a) \<Rightarrow> Inr (k < a)
      | Some (NumFloat f) \<Rightarrow> Inr (float_gt f (Fin (of_int k)))
      | None \<Rightarrow> Inl TypeError)"

text \<open>\<open>x / y\<close>: true division, always a float.\<close>

definition py_truediv :: "pyval \<Rightarrow> pyval \<Rightarrow> pyfloat result" where
  "py_truediv x y =
     (case (as_number x, as_number y) of
        (Some (NumInt a), Some (NumInt b)) \<Rightarrow> int_true_divide a b
      | (Some m, Some n) \<Rightarrow>
          and_then (to_float m) (\<lambda>f. and_then (to_float n) (\<lambda>g. float_div f g))
      | _ \<Rightarrow> Inl TypeError)"

text \<open>\<open>d.get(key, default)\<close>: only a dictionary has the method.\<close>

fun py_get :: "pyval \<Rightarrow> string \<Rightarrow> pyval \<Rightarrow> pyval result" where
  "py_get (PDict kvs) key dflt =
     Inr (case map_of kvs key of Some v \<Rightarrow> v | None \<Rightarrow> dflt)"
| "py_get v key dflt = Inl AttributeError"

fun py_truthy :: "pyval \<Rightarrow> bool" where
  "py_truthy PNone = False"
| "py_truthy (PBool b) = b"
| "py_truthy (PInt i) = (i \<noteq> 0)"
| "py_truthy (PFloat f) = (f \<noteq> Fin 0)"
| "py_truthy (PStr s) = (s \<noteq> [])"
| "py_truthy (PList xs) = (xs \<noteq> [])"
| "py_truthy (PDict kvs) = (kvs \<noteq> [])"

text \<open>
  \<open>c in v\<close> for a string \<open>c\<close>: an element of a list, a substring of a string, a key of
  a dictionary; no other decoded value is a container.
\<close>

fun py_contains_str :: "string \<Rightarrow> pyval \<Rightarrow> bool result" where
  "py_contains_str c (PList xs) = Inr (PStr c \<in> set xs)"
| "py_contains_str c (PStr s) = Inr (sublist c s)"
| "py_contains_str c (PDict kvs) = Inr (c \<in> fst ` set kvs)"
| "py_contains_str c v = Inl TypeError"

section \<open>The strategy function\<close>

text \<open>The cards in the order of the two nested loops that build the deck.\<close>

definition all_cards :: "string list" where
  "all_cards = concat (map (\<lambda>r. map (\<lambda>s. [r, s]) ''HDSC'') ''23456789TJQKA'')"

fun deck_loop :: "string list \<Rightarrow> pyval \<Rightarrow> pyval \<Rightarrow> string list \<Rightarrow> string list result" where
  "deck_loop [] hole table deck = Inr deck"
| "deck_loop (c # cs) hole table deck =
     and_then (py_contains_str c hole) (\<lambda>in_hole.
     deck_loop cs hole table (if \<not> in_hole \<and> PStr c \<noteq> table then deck @ [c] else deck))"

definition build_deck :: "pyval \<Rightarrow> pyval \<Rightarrow> string list result" where
  "build_deck hole table = deck_loop all_cards hole table []"

text \<open>
  \<open>random.sample(deck, 2)\<close> raises ValueError on a deck of fewer than two cards and
  otherwise returns the cards at two different positions.  The outcome of the draw is
  a pair of numbers: the first selects a position, the second a position among the rest.
\<close>

definition random_sample_2 :: "nat \<times> nat \<Rightarrow> 'a list \<Rightarrow> 'a list result" where
  "random_sample_2 draw deck =
     (if length deck < 2 then Inl ValueError
      else let i = fst draw mod length deck;
               rest = take i deck @ drop (Suc i) deck;
               j = snd draw mod length rest
           in Inr [deck ! i, rest ! j])"

text \<open>
  The simulation loop \<open>for _ in range(sims)\<close>, with the accumulator \<open>wins\<close>; \<open>rng k\<close>
  is the outcome of the draw \<open>k\<close> iterations from now.
\<close>

fun simulate :: "nat \<Rightarrow> (nat \<Rightarrow> nat \<times> nat) \<Rightarrow> string list \<Rightarrow> pyval \<Rightarrow> pyval \<Rightarrow> pyval
    \<Rightarrow> pyval result" where
  "simulate 0 rng deck hole table wins = Inr wins"
| "simulate (Suc n) rng deck hole table wins =
     and_then (random_sample_2 (rng 0) deck) (\<lambda>opp_hand.
     and_then (compare_hands_internal hole table (PList (map PStr opp_hand))) (\<lambda>c.
     and_then (py_add wins (PFloat c)) (\<lambda>wins'.
     simulate n (\<lambda>k. rng (Suc k)) deck hole table wins')))"

definition sims :: nat where
  "sims = 800"

text \<open>Step 1 of the strategy: the equity from the deck and the simulation.\<close>

definition estimate_equity :: "(nat \<Rightarrow> nat \<times> nat) \<Rightarrow> pyval \<Rightarrow> pyval \<Rightarrow> pyfloat result" where
  "estimate_equity rng hole table =
     and_then (build_deck hole table) (\<lambda>deck.
     and_then (simulate sims rng deck hole table (PInt 0)) (\<lambda>wins.
     py_truediv wins (PInt (int sims))))"

text \<open>Analysing the opponent: the fold frequency.\<close>

definition fold_frequency :: "pyval \<Rightarrow> pyfloat result" where
  "fold_frequency stats =
     and_then (py_get stats ''fold'' (PInt 0)) (\<lambda>n_fold.
     and_then (py_get stats ''call'' (PInt 0)) (\<lambda>n_call.
     and_then (py_add n_fold n_call) (\<lambda>n_fold_call.
     and_then (py_get stats ''raise'' (PInt 0)) (\<lambda>n_raise.
     and_then (py_add n_fold_call n_raise) (\<lambda>n_actions.
     and_then (py_gt_int n_actions 5) (\<lambda>enough.
     if enough
     then and_then (py_truediv n_fold n_actions) (\<lambda>q.
          Inr (py_max (float_literal (5 / 100)) (py_min (float_literal (95 / 100)) q)))
     else Inr (float_literal (30 / 100))))))))"

definition ev_call_of :: "pyfloat \<Rightarrow> pyfloat \<Rightarrow> pyfloat" where
  "ev_call_of real_equity fold_freq =
     (let ev_call_showdown =
            float_add (float_mul real_equity (Fin 2))
                      (float_mul (float_sub (Fin 1) real_equity) (Fin (- 2)))
      in float_add (float_mul fold_freq (Fin 2))
                   (float_mul (float_sub (Fin 1) fold_freq) ev_call_showdown))"

definition ev_raise_of :: "pyfloat \<Rightarrow> pyfloat \<Rightarrow> pyfloat" where
  "ev_raise_of real_equity fold_freq =
     (let ev_raise_showdown =
            float_add (float_mul real_equity (Fin 3))
                      (float_mul (float_sub (Fin 1) real_equity) (Fin (- 3)))
      in float_add (float_mul fold_freq (Fin 3))
                   (float_mul (float_sub (Fin 1) fold_freq) ev_raise_showdown))"

text \<open>Step 2 of the strategy: the trash filter, the expected values and the decision.\<close>

definition strategic_logic :: "pyfloat \<Rightarrow> pyval \<Rightarrow> string result" where
  "strategic_logic equity stats =
     (if float_lt equity (float_literal (35 / 100)) then Inr ''FOLD''
      else
        and_then (fold_frequency stats) (\<lambda>fold_freq.
        let ev_fold = Fin (- 1);
            real_equity = equity;
            ev_call = ev_call_of real_equity fold_freq;
            ev_raise = ev_raise_of real_equity fold_freq
        in if float_gt ev_raise (float_add ev_call (float_literal (10 / 100)))
              \<and> float_gt ev_raise ev_fold
           then Inr ''RAISE''
           else if float_gt ev_call (float_add ev_fold (float_literal (10 / 100)))
           then Inr ''CALL''
           else Inr ''FOLD''))"

text \<open>The body of the \<open>try\<close> block of \<open>decide_action\<close>.\<close>

definition decide_action_body :: "(nat \<Rightarrow> nat \<times> nat) \<Rightarrow> pyval \<Rightarrow> string result" where
  "decide_action_body rng state =
     and_then (py_get state ''your_hole'' (PList [])) (\<lambda>hole.
     and_then (py_get state ''table_card'' (PStr [])) (\<lambda>table.
     and_then (py_get state ''opponent_stats'' (PDict [])) (\<lambda>stats.
     and_then (py_get state ''total_rounds'' (PInt 1001)) (\<lambda>n_total_rounds.
     if \<not> py_truthy hole \<or> \<not> py_truthy table then Inr ''FOLD''
     else
       and_then (estimate_equity rng hole table) (\<lambda>equity.
       strategic_logic equity stats)))))"

text \<open>\<open>except Exception: return "FOLD"\<close>.\<close>

definition decide_action :: "(nat \<Rightarrow> nat \<times> nat) \<Rightarrow> pyval \<Rightarrow> string" where
  "decide_action rng state =
     (case decide_action_body rng state of Inl e \<Rightarrow> ''FOLD'' | Inr action \<Rightarrow> action)"

section \<open>I/O glue\<close>

text \<open>
  \<open>main\<close> decodes standard input; \<open>decoded\<close> is the decoded document, or \<open>None\<close> when
  the input is empty or the decoder raised, in which case the state is the empty
  dictionary.  The result is the value written under the key \<open>action\<close>.
\<close>

text \<open>\<open>if action not in {"FOLD", "CALL", "RAISE"}: action = "CALL"\<close>.\<close>

definition coerce_action :: "string \<Rightarrow> string" where
  "coerce_action action =
     (if action \<notin> {''FOLD'', ''CALL'', ''RAISE''} then ''CALL'' else action)"

definition main_action :: "(nat \<Rightarrow> nat \<times> nat) \<Rightarrow> pyval option \<Rightarrow> string" where
  "main_action rng decoded =
     (let state = (case decoded of None \<Rightarrow> PDict [] | Some v \<Rightarrow> v);
          action = decide_action rng state
      in coerce_action action)"

section \<open>The specification's wording\<close>

text \<open>
  A card token that \<open>parse_card\<close> accepts: a string of at least two characters whose
  first character is a rank symbol; its rank value and its suit symbol.
\<close>

definition parseable :: "string \<Rightarrow> bool" where
  "parseable s = (2 \<le> length s \<and> s ! 0 \<in> set RANKS)"

definition rank_of :: "string \<Rightarrow> int" where
  "rank_of s = the (RANK_VALUE [s ! 0])"

definition suit_of :: "string \<Rightarrow> char" where
  "suit_of s = s ! 1"

text \<open>
  The categories as the specification words them, on the three rank values and the three
  suits of a hand: a straight is a run of consecutive sorted values or the wheel, a
  flush is three identical suits, and the first matching rule of the priority list wins.
\<close>

definition spec_straight :: "int list \<Rightarrow> bool" where
  "spec_straight vs =
     (let r = sort vs
      in (r ! 1 = r ! 0 + 1 \<and> r ! 2 = r ! 1 + 1) \<or> set vs = {14, 2, 3})"

definition spec_categorize :: "int list \<Rightarrow> char list \<Rightarrow> int" where
  "spec_categorize ranks suits =
     (let straight = spec_straight ranks;
          flush = (suits ! 0 = suits ! 1 \<and> suits ! 1 = suits ! 2);
          three = (\<exists>v \<in> set ranks. count_list ranks v = 3);
          two = (\<exists>v \<in> set ranks. count_list ranks v = 2)
      in if straight \<and> flush then 5
         else if three then 4
         else if straight then 3
         else if flush then 2
         else if two then 1
         else 0)"

text \<open>
  The tie-break as the specification words it: the three rank values in descending
  order, the wheel remapped to 3, 2, 1 in the two straight categories; the first position
  where the two sequences differ decides, and equal sequences tie.
\<close>

definition spec_tiebreak :: "int \<Rightarrow> int list \<Rightarrow> int list" where
  "spec_tiebreak category vs =
     (if (category = 5 \<or> category = 3) \<and> set vs = {14, 3, 2} then [3, 2, 1]
      else rev (sort vs))"

definition spec_first_difference :: "int list \<Rightarrow> int list \<Rightarrow> rat" where
  "spec_first_difference ms os =
     (case filter (\<lambda>(m, o'). m \<noteq> o') (zip ms os) of
        [] \<Rightarrow> 1 / 2
      | (m, o') # rest \<Rightarrow> if m > o' then 1 else 0)"

definition spec_compare :: "int \<Rightarrow> int list \<Rightarrow> int \<Rightarrow> int list \<Rightarrow> rat" where
  "spec_compare ca va cb vb =
     (if ca > cb then 1
      else if cb > ca then 0
      else spec_first_difference (spec_tiebreak ca va) (spec_tiebreak cb vb))"

text \<open>
  The decision rule as the specification words it (steps 4 to 8): the fold frequency is
  the clamped ratio of folds when more than five actions were observed and 0.30
  otherwise; the three expected values; RAISE, CALL or FOLD by the two margins.
\<close>

definition spec_clamp :: "pyfloat \<Rightarrow> pyfloat \<Rightarrow> pyfloat \<Rightarrow> pyfloat" where
  "spec_clamp x lo hi = (if float_lt x lo then lo else if float_gt x hi then hi else x)"

definition spec_fold_freq :: "int \<Rightarrow> int \<Rightarrow> int \<Rightarrow> pyfloat" where
  "spec_fold_freq n_fold n_call n_raise =
     (let n_actions = n_fold + n_call + n_raise
      in if n_actions > 5
         then spec_clamp (float_of_rat (of_int n_fold / of_int n_actions))
                (float_literal (5 / 100)) (float_literal (95 / 100))
         else float_literal (30 / 100))"

definition spec_action :: "pyfloat \<Rightarrow> pyfloat \<Rightarrow> string" where
  "spec_action e fold_freq =
     (let ev_fold = Fin (- 1);
          ev_call =
            float_add (float_mul fold_freq (Fin 2))
              (float_mul (float_sub (Fin 1) fold_freq)
                 (float_add (float_mul e (Fin 2)) (float_mul (float_sub (Fin 1) e) (Fin (- 2)))));
          ev_raise =
            float_add (float_mul fold_freq (Fin 3))
              (float_mul (float_sub (Fin 1) fold_freq)
                 (float_add (float_mul e (Fin 3)) (float_mul (float_sub (Fin 1) e) (Fin (- 3)))))
      in if float_gt ev_raise (float_add ev_call (float_literal (10 / 100)))
            \<and> float_gt ev_raise ev_fold
         then ''RAISE''
         else if float_gt ev_call (float_add ev_fold (float_literal (10 / 100)))
         then ''CALL''
         else ''FOLD'')"

text \<open>The closed form of \<open>ev_call\<close> in exact arithmetic.\<close>

definition exact_ev_call :: "rat \<Rightarrow> rat \<Rightarrow> rat" where
  "exact_ev_call fold_freq equity = 2 * fold_freq + (1 - fold_freq) * (4 * equity - 2)"

text \<open>
  A count of the opponent statistics: an integer, 0 when the field is absent.  The
  ratio of two integers is representable when it rounds to a finite float, which is
  when the true division of the two integers raises no OverflowError.
\<close>

definition count_of :: "(string \<times> pyval) list \<Rightarrow> string \<Rightarrow> int option" where
  "count_of kvs key =
     (case map_of kvs key of
        None \<Rightarrow> Some 0
      | Some (PInt n) \<Rightarrow> Some n
      | Some v \<Rightarrow> None)"

definition ratio_representable :: "int \<Rightarrow> int \<Rightarrow> bool" where
  "ratio_representable n_fold n_actions =
     (case float_of_rat (of_int n_fold / of_int n_actions) of Fin q \<Rightarrow> True | _ \<Rightarrow> False)"

section \<open>The simulation's invariant\<close>

text \<open>
  The accumulator \<open>wins\<close> is the integer 0 before the first iteration and afterwards a
  finite float between 0 and the number \<open>B\<close> of iterations done.
\<close>

definition wins_inv :: "nat \<Rightarrow> pyval \<Rightarrow> bool" where
  "wins_inv B wins = (wins = PInt 0 \<or> (\<exists>w. wins = PFloat (Fin w) \<and> 0 \<le> w \<and> w \<le> of_nat B))"
section \<open>Properties of the rounding\<close>

lemma bitlen_one: "bitlen 1 = 1"
  by (subst compute_bitlen) simp

lemma bitlen_Bit0: "bitlen (numeral (Num.Bit0 n)) = bitlen (numeral n) + 1"
  by (subst compute_bitlen) simp

lemma bitlen_Bit1: "bitlen (numeral (Num.Bit1 n)) = bitlen (numeral n) + 1"
  by (subst compute_bitlen) simp

lemma floor_rat_numeral: "\<lfloor>numeral a / numeral b :: rat\<rfloor> = numeral a div numeral b"
  by (metis floor_divide_of_int_eq of_int_numeral)

lemma floor_rat_neg_numeral: "\<lfloor>- (numeral a / numeral b) :: rat\<rfloor> = - numeral a div numeral b"
  by (metis divide_minus_left floor_divide_of_int_eq of_int_neg_numeral of_int_numeral)

lemma ceiling_rat_numeral: "\<lceil>numeral a / numeral b :: rat\<rceil> = - (- numeral a div numeral b)"
  using ceiling_divide_eq_div[of "numeral a" "numeral b"] by simp

lemmas float_eval = round_binary64_def quantum_exp_def flog2_def round_half_even_def Let_def
  bitlen_one bitlen_Bit0 bitlen_Bit1 floor_rat_numeral floor_rat_neg_numeral ceiling_rat_numeral


lemma rhe_cases: "round_half_even x = \<lfloor>x\<rfloor> \<or> round_half_even x = \<lfloor>x\<rfloor> + 1"
  by (simp add: round_half_even_def Let_def)

lemma rhe_of_int: "round_half_even (of_int k) = k"
  by (simp add: round_half_even_def Let_def)

lemma rhe_mono: "x \<le> y \<Longrightarrow> round_half_even x \<le> round_half_even y"
proof -
  assume le: "x \<le> y"
  then have fl: "\<lfloor>x\<rfloor> \<le> \<lfloor>y\<rfloor>" by (rule floor_mono)
  show ?thesis
  proof (cases "\<lfloor>x\<rfloor> = \<lfloor>y\<rfloor>")
    case True
    with le show ?thesis
      by (auto simp: round_half_even_def Let_def)
  next
    case False
    with fl have "\<lfloor>x\<rfloor> + 1 \<le> \<lfloor>y\<rfloor>" by simp
    moreover have "round_half_even x \<le> \<lfloor>x\<rfloor> + 1" using rhe_cases [of x] by auto
    moreover have "\<lfloor>y\<rfloor> \<le> round_half_even y" using rhe_cases [of y] by auto
    ultimately show ?thesis by linarith
  qed
qed

lemma rhe_neg: "round_half_even (- x) = - round_half_even x"
proof (cases "x \<in> \<int>")
  case True
  then obtain k where "x = of_int k" by (auto elim: Ints_cases)
  then show ?thesis
    using rhe_of_int [of "- k"] rhe_of_int [of k] by simp
next
  case False
  then have fl: "\<lfloor>- x\<rfloor> = - \<lfloor>x\<rfloor> - 1"
  proof -
    have "x \<noteq> of_int \<lfloor>x\<rfloor>" using False by (metis Ints_of_int)
    then show ?thesis by (simp add: floor_minus ceiling_altdef)
  qed
  show ?thesis
    unfolding round_half_even_def Let_def fl
    by (auto simp: algebra_simps)
qed

lemma flog2_bounds:
  assumes "0 < x"
  shows "2 powi flog2 x \<le> x" and "x < 2 powi (flog2 x + 1)"
proof -
  have "2 powi flog2 x \<le> x \<and> x < 2 powi (flog2 x + 1)"
  proof (cases "1 \<le> x")
    case True
    define n where "n = \<lfloor>x\<rfloor>"
    have n1: "1 \<le> n" using True by (simp add: n_def)
    then have b: "2 ^ nat (bitlen n - 1) \<le> n" "n < 2 ^ nat (bitlen n)"
      using bitlen_bounds [of n] by auto
    have bl: "1 \<le> bitlen n" using n1 by (simp add: bitlen_alt_def)
    have f: "flog2 x = bitlen n - 1" using True by (simp add: flog2_def n_def)
    have "(2::rat) powi (bitlen n - 1) = of_int (2 ^ nat (bitlen n - 1))"
      using bl by (simp add: power_int_def)
    also have "\<dots> \<le> of_int n" using b(1) by (simp only: of_int_le_iff)
    also have "\<dots> \<le> x" by (simp add: n_def)
    finally have lo: "2 powi flog2 x \<le> x" by (simp add: f)
    have "x < of_int (n + 1)" unfolding n_def by simp linarith
    also have "\<dots> \<le> of_int (2 ^ nat (bitlen n))"
      using b(2) by (simp only: of_int_le_iff)
    also have "\<dots> = (2::rat) powi (bitlen n)"
      using bl by (simp add: power_int_def)
    finally have "x < 2 powi (flog2 x + 1)" by (simp add: f)
    with lo show ?thesis by simp
  next
    case False
    define m where "m = \<lceil>1 / x\<rceil>"
    define k where "k = bitlen (m - 1)"
    have y1: "1 < 1 / x" using False assms by simp
    then have m2: "2 \<le> m" unfolding m_def by (simp add: le_ceiling_iff)
    then have b: "2 ^ nat (k - 1) \<le> m - 1" "m - 1 < 2 ^ nat k"
      using bitlen_bounds [of "m - 1"] by (auto simp: k_def)
    have k1: "1 \<le> k" using m2 by (simp add: k_def bitlen_alt_def)
    have f: "flog2 x = - k" using False by (simp add: flog2_def m_def k_def)
    have "1 / x \<le> of_int m" by (simp add: m_def)
    also have "\<dots> \<le> of_int (2 ^ nat k)" using b(2) by (simp only: of_int_le_iff)
    also have "\<dots> = (2::rat) ^ nat k" by simp
    finally have "1 / x \<le> 2 ^ nat k" .
    then have "1 \<le> 2 ^ nat k * x" using assms by (simp add: field_simps)
    then have "1 / 2 ^ nat k \<le> x" by (simp add: field_simps)
    moreover have "(2::rat) powi (- k) = 1 / 2 ^ nat k"
      using k1 by (simp add: power_int_def field_simps)
    ultimately have lo: "2 powi flog2 x \<le> x" by (simp add: f)
    have "of_int (2 ^ nat (k - 1)) \<le> (of_int (m - 1) :: rat)"
      using b(1) by (simp only: of_int_le_iff)
    also have "\<dots> < 1 / x" unfolding m_def by (simp add: ceiling_correct)
    finally have "(2::rat) ^ nat (k - 1) < 1 / x" by simp
    then have "2 ^ nat (k - 1) * x < 1" using assms by (simp add: field_simps)
    then have "x < 1 / 2 ^ nat (k - 1)" by (simp add: field_simps)
    moreover have "(2::rat) powi (- k + 1) = 1 / 2 ^ nat (k - 1)"
    proof (cases "k = 1")
      case True
      then show ?thesis by simp
    next
      case False
      with k1 have "- k + 1 < 0" "nat (- (- k + 1)) = nat (k - 1)" by auto
      then show ?thesis by (simp add: power_int_def field_simps)
    qed
    ultimately have "x < 2 powi (flog2 x + 1)" by (simp add: f)
    with lo show ?thesis by simp
  qed
  then show "2 powi flog2 x \<le> x" and "x < 2 powi (flog2 x + 1)" by simp_all
qed

lemma flog2_less: "0 < x \<Longrightarrow> x < 2 powi k \<Longrightarrow> flog2 x < k"
proof (rule ccontr)
  assume x: "0 < x" "x < 2 powi k" and "\<not> flog2 x < k"
  then have "(2::rat) powi k \<le> 2 powi flog2 x" by (intro power_int_increasing) auto
  with flog2_bounds(1) [OF x(1)] x(2) show False by linarith
qed

lemma flog2_ge: "0 < x \<Longrightarrow> 2 powi k \<le> x \<Longrightarrow> k \<le> flog2 x"
proof (rule ccontr)
  assume x: "0 < x" "2 powi k \<le> x" and "\<not> k \<le> flog2 x"
  then have "(2::rat) powi (flog2 x + 1) \<le> 2 powi k" by (intro power_int_increasing) auto
  with flog2_bounds(2) [OF x(1)] x(2) show False by linarith
qed

lemma flog2_mono: "0 < x \<Longrightarrow> x \<le> y \<Longrightarrow> flog2 x \<le> flog2 y"
  using flog2_bounds(1) [of x] flog2_ge [of y "flog2 x"] by simp

lemma quantum_exp_neg: "quantum_exp (- x) = quantum_exp x"
  by (simp add: quantum_exp_def)

lemma quantum_exp_mono: "0 < x \<Longrightarrow> x \<le> y \<Longrightarrow> quantum_exp x \<le> quantum_exp y"
  using flog2_mono [of x y] by (simp add: quantum_exp_def)

lemma quantum_exp_upper: "0 < x \<Longrightarrow> x < 2 powi (quantum_exp x + 53)"
proof -
  assume x: "0 < x"
  have "flog2 x + 1 \<le> quantum_exp x + 53" using x by (simp add: quantum_exp_def)
  then have "(2::rat) powi (flog2 x + 1) \<le> 2 powi (quantum_exp x + 53)"
    by (intro power_int_increasing) auto
  with flog2_bounds(2) [OF x] show ?thesis by linarith
qed

lemma quantum_exp_lower:
  "0 < x \<Longrightarrow> - 1074 < quantum_exp x \<Longrightarrow> 2 powi (quantum_exp x + 52) \<le> x"
proof -
  assume x: "0 < x" and q: "- 1074 < quantum_exp x"
  then have "quantum_exp x + 52 = flog2 x" by (simp add: quantum_exp_def max_def split: if_splits)
  with flog2_bounds(1) [OF x] show ?thesis by simp
qed

lemma round_binary64_neg: "round_binary64 (- x) = - round_binary64 x"
  by (simp add: round_binary64_def quantum_exp_neg rhe_neg)

lemma round_binary64_nonneg: "0 \<le> x \<Longrightarrow> 0 \<le> round_binary64 x"
proof -
  assume "0 \<le> x"
  then have "0 \<le> x / 2 powi quantum_exp x" by simp
  then have "round_half_even 0 \<le> round_half_even (x / 2 powi quantum_exp x)"
    by (rule rhe_mono)
  then have "0 \<le> round_half_even (x / 2 powi quantum_exp x)"
    using rhe_of_int [of 0] by simp
  then show ?thesis by (simp add: round_binary64_def)
qed

lemma round_binary64_mono_pos:
  assumes "0 < x" "x \<le> y"
  shows "round_binary64 x \<le> round_binary64 y"
proof -
  define qx where "qx = quantum_exp x"
  define qy where "qy = quantum_exp y"
  have y: "0 < y" using assms by simp
  have q: "qx \<le> qy" unfolding qx_def qy_def using assms by (rule quantum_exp_mono)
  have rx: "round_binary64 x = of_int (round_half_even (x / 2 powi qx)) * 2 powi qx"
    using assms by (simp add: round_binary64_def qx_def)
  have ry: "round_binary64 y = of_int (round_half_even (y / 2 powi qy)) * 2 powi qy"
    using y by (simp add: round_binary64_def qy_def)
  have pos: "0 < (2::rat) powi k" for k by simp
  show ?thesis
  proof (cases "qx = qy")
    case True
    have "x / 2 powi qy \<le> y / 2 powi qy" using assms pos [of qy] by (simp add: divide_right_mono)
    then have "round_half_even (x / 2 powi qy) \<le> round_half_even (y / 2 powi qy)"
      by (rule rhe_mono)
    then have "(of_int (round_half_even (x / 2 powi qy)) :: rat) * 2 powi qy
                 \<le> of_int (round_half_even (y / 2 powi qy)) * 2 powi qy"
      using pos [of qy] by (simp add: mult_right_mono)
    then show ?thesis by (simp add: rx ry True)
  next
    case False
    with q have lt: "qx < qy" by simp
    have "- 1074 \<le> qx" by (simp add: qx_def quantum_exp_def)
    with lt have "- 1074 < quantum_exp y" by (simp add: qy_def)
    then have "2 powi (qy + 52) \<le> y" using quantum_exp_lower [OF y] by (simp add: qy_def)
    then have "2 powi (qy + 52) / 2 powi qy \<le> y / 2 powi qy"
      using pos [of qy] by (simp add: divide_right_mono)
    then have "of_int (2 ^ 52) \<le> y / 2 powi qy"
      by (simp add: power_int_add)
    then have "round_half_even (of_int (2 ^ 52)) \<le> round_half_even (y / 2 powi qy)"
      by (rule rhe_mono)
    then have "2 ^ 52 \<le> round_half_even (y / 2 powi qy)"
      by (simp only: rhe_of_int)
    then have "(of_int (2 ^ 52) :: rat) \<le> of_int (round_half_even (y / 2 powi qy))"
      by (simp only: of_int_le_iff)
    then have "(of_int (2 ^ 52) :: rat) * 2 powi qy \<le> round_binary64 y"
      unfolding ry using pos [of qy] by (simp only: mult_right_mono less_imp_le)
    then have lo: "(2::rat) powi (qy + 52) \<le> round_binary64 y"
      by (simp add: power_int_add mult.commute)
    have "x < 2 powi (qx + 53)" using quantum_exp_upper [OF assms(1)] by (simp add: qx_def)
    then have "x / 2 powi qx < 2 powi (qx + 53) / 2 powi qx"
      using pos [of qx] by (simp add: divide_strict_right_mono)
    then have "x / 2 powi qx \<le> of_int (2 ^ 53)"
      by (simp add: power_int_add)
    then have "round_half_even (x / 2 powi qx) \<le> round_half_even (of_int (2 ^ 53))"
      by (rule rhe_mono)
    then have "round_half_even (x / 2 powi qx) \<le> 2 ^ 53"
      by (simp only: rhe_of_int)
    then have "(of_int (round_half_even (x / 2 powi qx)) :: rat) \<le> of_int (2 ^ 53)"
      by (simp only: of_int_le_iff)
    then have "round_binary64 x \<le> of_int (2 ^ 53) * 2 powi qx"
      unfolding rx using pos [of qx] by (simp only: mult_right_mono less_imp_le)
    then have "round_binary64 x \<le> 2 powi (qx + 53)"
      by (simp add: power_int_add mult.commute)
    also have "\<dots> \<le> 2 powi (qy + 52)"
      using lt by (intro power_int_increasing) auto
    finally show ?thesis using lo by simp
  qed
qed

lemma round_binary64_zero: "round_binary64 0 = 0"
  by (simp add: round_binary64_def)

lemma round_binary64_mono:
  assumes "x \<le> y"
  shows "round_binary64 x \<le> round_binary64 y"
proof -
  consider "0 < x" | "x \<le> 0" "0 \<le> y" | "y < 0" by linarith
  then show ?thesis
  proof cases
    case 1
    then show ?thesis using assms by (rule round_binary64_mono_pos)
  next
    case 2
    have "round_binary64 x \<le> 0"
      using round_binary64_nonneg [of "- x"] 2(1) by (simp add: round_binary64_neg)
    moreover have "0 \<le> round_binary64 y" using 2(2) by (rule round_binary64_nonneg)
    ultimately show ?thesis by simp
  next
    case 3
    then have "round_binary64 (- y) \<le> round_binary64 (- x)"
      using assms by (intro round_binary64_mono_pos) auto
    then show ?thesis by (simp add: round_binary64_neg)
  qed
qed

lemma round_binary64_exact:
  assumes m: "\<bar>m\<bar> < 2 ^ 53" and j: "- 1074 \<le> j"
  shows "round_binary64 (of_int m * 2 powi j) = of_int m * 2 powi j"
proof (cases "m = 0")
  case True
  then show ?thesis by (simp add: round_binary64_def)
next
  case False
  define x :: rat where "x = of_int m * 2 powi j"
  define q where "q = quantum_exp x"
  have ax: "\<bar>x\<bar> = of_int \<bar>m\<bar> * 2 powi j" by (simp add: x_def abs_mult)
  have xpos: "0 < \<bar>x\<bar>" using False by (simp add: x_def)
  have "(of_int \<bar>m\<bar> :: rat) < of_int (2 ^ 53)" using m by (simp only: of_int_less_iff)
  then have "\<bar>x\<bar> < of_int (2 ^ 53) * 2 powi j"
    unfolding ax by (simp only: mult_strict_right_mono zero_less_power_int zero_less_numeral)
  then have "\<bar>x\<bar> < 2 powi (53 + j)" by (simp add: power_int_add)
  then have "flog2 \<bar>x\<bar> < 53 + j" using xpos by (intro flog2_less) auto
  then have qj: "q \<le> j" using j by (simp add: q_def quantum_exp_def)
  then have "x / 2 powi q = of_int m * 2 powi (j - q)"
    by (simp add: x_def power_int_diff)
  also have "\<dots> = of_int (m * 2 ^ nat (j - q))"
    using qj by (simp add: power_int_def)
  finally have "round_half_even (x / 2 powi q) = m * 2 ^ nat (j - q)"
    by (simp only: rhe_of_int)
  then have "round_binary64 x = of_int (m * 2 ^ nat (j - q)) * 2 powi q"
    using False by (simp add: round_binary64_def x_def q_def)
  also have "\<dots> = of_int m * (2 powi (j - q) * 2 powi q)"
    using qj by (simp add: power_int_def)
  also have "\<dots> = x" by (simp add: x_def flip: power_int_add)
  finally show ?thesis by (simp add: x_def)
qed

lemma round_binary64_of_int: "\<bar>m\<bar> < 2 ^ 53 \<Longrightarrow> round_binary64 (of_int m) = of_int m"
  using round_binary64_exact [of m 0] by simp
section \<open>Straights\<close>

lemma and_then_simps [simp]:
  "and_then (Inl e) f = Inl e" "and_then (Inr x) f = f x"
  by (simp_all add: and_then_def)

lemma length3_obtain:
  assumes "length xs = 3"
  obtains x y z where "xs = [x, y, z]"
proof -
  from assms obtain x xs1 where 1: "xs = x # xs1" "length xs1 = 2"
    by (cases xs) auto
  then obtain y xs2 where 2: "xs1 = y # xs2" "length xs2 = 1"
    by (cases xs1) auto
  then obtain z where 3: "xs2 = [z]"
    by (cases xs2) auto
  show ?thesis using that 1 2 3 by simp
qed

lemma sort3_obtain:
  fixes vs :: "int list"
  assumes "length vs = 3"
  obtains x y z where "sort vs = [x, y, z]" "x \<le> y" "y \<le> z"
proof -
  have "length (sort vs) = 3" using assms by simp
  then obtain x y z where s: "sort vs = [x, y, z]"
    by (rule length3_obtain)
  have "sorted (sort vs)" by simp
  then have "x \<le> y" "y \<le> z" unfolding s by auto
  with s show ?thesis using that by blast
qed


lemma wheel_sorted:
  fixes x y z :: int
  assumes "x \<le> y" "y \<le> z"
  shows "({x, y, z} = {14, 2, 3}) = (x = 2 \<and> y = 3 \<and> z = 14)"
proof
  assume eq: "{x, y, z} = {14, 2, 3}"
  have m: "x \<in> {x, y, z}" "y \<in> {x, y, z}" "z \<in> {x, y, z}" by simp_all
  have x: "x = 14 \<or> x = 2 \<or> x = 3" using m(1) unfolding eq by simp
  have y: "y = 14 \<or> y = 2 \<or> y = 3" using m(2) unfolding eq by simp
  have z: "z = 14 \<or> z = 2 \<or> z = 3" using m(3) unfolding eq by simp
  have n: "(2::int) \<in> {14, 2, 3}" "(3::int) \<in> {14, 2, 3}" "(14::int) \<in> {14, 2, 3}" by simp_all
  have a: "2 = x \<or> 2 = y \<or> 2 = z" using n(1) unfolding eq [symmetric] by simp
  have b: "3 = x \<or> 3 = y \<or> 3 = z" using n(2) unfolding eq [symmetric] by simp
  have c: "14 = x \<or> 14 = y \<or> 14 = z" using n(3) unfolding eq [symmetric] by simp
  show "x = 2 \<and> y = 3 \<and> z = 14" using assms x y z a b c by linarith
next
  assume "x = 2 \<and> y = 3 \<and> z = 14"
  then show "{x, y, z} = {14, 2, 3}" by (simp add: insert_commute)
qed


lemma is_straight_3_sorted:
  assumes "sort vs = [x, y, z]"
  shows "is_straight_3 vs =
     (if x + 1 = y \<and> y + 1 = z then Inr (True, z)
      else if {x, y, z} = {14, 2, 3} then Inr (True, 3) else Inr (False, 0))"
  by (simp add: is_straight_3_def assms nth_result_def Let_def)


text \<open>
  Claim C4.  For a list of three rank values (each between 2 and 14), \<open>is_straight_3\<close>
  returns \<open>(True, maximum)\<close> exactly when the sorted values are consecutive, returns
  \<open>(True, 3)\<close> exactly when the values are Ace, 2 and 3, and returns \<open>(False, 0)\<close> in
  every other case, in particular whenever a value occurs twice.
\<close>

theorem is_straight_3_spec:
  assumes "length vs = 3" and "\<forall>v \<in> set vs. 2 \<le> v \<and> v \<le> 14"
  shows "((is_straight_3 vs = Inr (True, Max (set vs))) = (\<exists>w. sort vs = [w, w + 1, w + 2]))
       \<and> ((is_straight_3 vs = Inr (True, 3)) = (set vs = {14, 2, 3}))
       \<and> (\<not> (\<exists>w. sort vs = [w, w + 1, w + 2]) \<and> set vs \<noteq> {14, 2, 3}
            \<longrightarrow> is_straight_3 vs = Inr (False, 0))
       \<and> (\<not> distinct vs \<longrightarrow> is_straight_3 vs = Inr (False, 0))"
proof -
  from assms(1) obtain x y z where s: "sort vs = [x, y, z]" and le: "x \<le> y" "y \<le> z"
    by (rule sort3_obtain)
  have "set (sort vs) = set vs" by simp
  then have sv: "set vs = {x, y, z}" unfolding s by simp
  have mx: "Max (set vs) = z" unfolding sv using le by (simp add: max_def)
  have "distinct (sort vs) = distinct vs" by simp
  then have dv: "distinct vs = (x \<noteq> y \<and> y \<noteq> z \<and> x \<noteq> z)" unfolding s by auto
  have rng: "2 \<le> x" using assms(2) unfolding sv by simp
  have w: "({x, y, z} = {14, 2, 3}) = (x = 2 \<and> y = 3 \<and> z = 14)"
    using le by (rule wheel_sorted)
  have c: "(\<exists>w. sort vs = [w, w + 1, w + 2]) = (x + 1 = y \<and> y + 1 = z)"
    unfolding s by auto
  have i: "is_straight_3 vs =
     (if x + 1 = y \<and> y + 1 = z then Inr (True, z)
      else if x = 2 \<and> y = 3 \<and> z = 14 then Inr (True, 3) else Inr (False, 0))"
    using is_straight_3_sorted [OF s] unfolding w .
  have p1: "(is_straight_3 vs = Inr (True, Max (set vs))) = (\<exists>w. sort vs = [w, w + 1, w + 2])"
    unfolding c mx i by auto
  have p2: "(is_straight_3 vs = Inr (True, 3)) = (set vs = {14, 2, 3})"
    unfolding sv w i using rng by auto
  have p3: "\<not> (\<exists>w. sort vs = [w, w + 1, w + 2]) \<and> set vs \<noteq> {14, 2, 3}
            \<longrightarrow> is_straight_3 vs = Inr (False, 0)"
    unfolding c sv w i by auto
  have p4: "\<not> distinct vs \<longrightarrow> is_straight_3 vs = Inr (False, 0)"
    unfolding dv i by auto
  from p1 p2 p3 p4 show ?thesis by blast
qed

theorem is_straight_3_spec_witness:
  "length [14, 3, 2 :: int] = 3 \<and> is_straight_3 [14, 3, 2] = Inr (True, 3)"
proof -
  have h1: "length [14, 3, 2 :: int] = 3" by simp
  have h2: "\<forall>v \<in> set [14, 3, 2 :: int]. 2 \<le> v \<and> v \<le> 14" by simp
  from is_straight_3_spec [OF h1 h2] show ?thesis by (simp add: insert_commute)
qed

section \<open>Hand categories\<close>

lemma RANK_VALUE_eval:
  "RANK_VALUE = map_of [(''2'', 2), (''3'', 3), (''4'', 4), (''5'', 5), (''6'', 6), (''7'', 7),
     (''8'', 8), (''9'', 9), (''T'', 10), (''J'', 11), (''Q'', 12), (''K'', 13), (''A'', 14)]"
  by (simp add: RANK_VALUE_def RANKS_def enumerate_eq_zip upt_rec)

lemma RANK_VALUE_rank:
  assumes "c \<in> set RANKS"
  shows "\<exists>v. RANK_VALUE [c] = Some v \<and> 2 \<le> v \<and> v \<le> 14"
  using assms unfolding RANK_VALUE_eval RANKS_def by auto

lemma parse_card_parseable:
  assumes "parseable s"
  shows "parse_card (PStr s) = Inr (rank_of s, PStr [suit_of s])"
proof -
  from assms have l: "0 < length s" "1 < length s" and r: "s ! 0 \<in> set RANKS"
    by (auto simp: parseable_def)
  from RANK_VALUE_rank [OF r] obtain v where v: "RANK_VALUE [s ! 0] = Some v" by blast
  show ?thesis
    using l v by (simp add: parse_card_def rank_value_lookup_def rank_of_def suit_of_def)
qed

lemma count_values_3:
  "(3 \<in> set (count_values [a, b, c])) = (a = b \<and> b = c)"
  by (auto simp: count_values_def bump_def)

lemma count_values_2:
  "(2 \<in> set (count_values [a, b, c])) = ((a = b \<or> b = c \<or> a = c) \<and> \<not> (a = b \<and> b = c))"
  by (auto simp: count_values_def bump_def)

lemma spec_three: "(\<exists>v \<in> set [a, b, c]. count_list [a, b, c] v = 3) = (a = b \<and> b = c)"
  by auto

lemma spec_two:
  "(\<exists>v \<in> set [a, b, c]. count_list [a, b, c] v = 2)
     = ((a = b \<or> b = c \<or> a = c) \<and> \<not> (a = b \<and> b = c))"
  by auto


lemma is_straight_3_fst:
  fixes vs :: "int list"
  assumes "length vs = 3"
  shows "\<exists>h. is_straight_3 vs = Inr (spec_straight vs, h)"
proof -
  from assms obtain x y z where s: "sort vs = [x, y, z]"
    by (rule sort3_obtain)
  have "set (sort vs) = set vs" by simp
  then have sv: "set vs = {x, y, z}" unfolding s by simp
  have sp: "spec_straight vs = ((y = x + 1 \<and> z = y + 1) \<or> {x, y, z} = {14, 2, 3})"
    by (simp add: spec_straight_def s sv)
  show ?thesis
    unfolding is_straight_3_sorted [OF s] sp by auto
qed

lemma suit_set_3:
  "py_set [PStr [x], PStr [y], PStr [z]] = Inr ss \<Longrightarrow> (length ss = 1) = (x = y \<and> y = z)"
  by (auto simp: py_set_def split: if_splits)

lemma hand_category_parsed:
  assumes "map_result parse_card (xs @ [t]) = Inr parsed"
    and "py_set (map snd parsed) = Inr ss"
    and "is_straight_3 (map fst parsed) = Inr (st, h)"
  shows "hand_category (PList xs) t =
     Inr (if st \<and> length ss = 1 then 5
          else if 3 \<in> set (count_values (map fst parsed)) then 4
          else if st then 3
          else if length ss = 1 then 2
          else if 2 \<in> set (count_values (map fst parsed)) then 1
          else 0)"
  unfolding hand_category_def using assms by (simp add: Let_def)


lemma spec_categorize_3:
  "spec_categorize [ra, rb, rt] [sa, sb, st] =
     (if spec_straight [ra, rb, rt] \<and> (sa = sb \<and> sb = st) then 5
      else if ra = rb \<and> rb = rt then 4
      else if spec_straight [ra, rb, rt] then 3
      else if sa = sb \<and> sb = st then 2
      else if (ra = rb \<or> rb = rt \<or> ra = rt) \<and> \<not> (ra = rb \<and> rb = rt) then 1
      else 0)"
  unfolding spec_categorize_def Let_def spec_three spec_two by simp

lemma hand_category_eq:
  assumes "parseable a" "parseable b" "parseable t"
  shows "hand_category (PList [PStr a, PStr b]) (PStr t)
           = Inr (spec_categorize [rank_of a, rank_of b, rank_of t]
                                  [suit_of a, suit_of b, suit_of t])"
proof -
  define ranks where "ranks = [rank_of a, rank_of b, rank_of t]"
  define parsed where "parsed =
    [(rank_of a, PStr [suit_of a]), (rank_of b, PStr [suit_of b]), (rank_of t, PStr [suit_of t])]"
  have fp: "map fst parsed = ranks" by (simp add: parsed_def ranks_def)
  have sp: "map snd parsed = [PStr [suit_of a], PStr [suit_of b], PStr [suit_of t]]"
    by (simp add: parsed_def)
  obtain h where st: "is_straight_3 ranks = Inr (spec_straight ranks, h)"
    using is_straight_3_fst [of ranks] by (auto simp: ranks_def)
  obtain ss where ss: "py_set [PStr [suit_of a], PStr [suit_of b], PStr [suit_of t]] = Inr ss"
    by (simp add: py_set_def)
  have fl: "(length ss = 1) = (suit_of a = suit_of b \<and> suit_of b = suit_of t)"
    using ss by (rule suit_set_3)
  have mp: "map_result parse_card ([PStr a, PStr b] @ [PStr t]) = Inr parsed"
    by (simp add: parse_card_parseable assms parsed_def)
  have hc: "hand_category (PList [PStr a, PStr b]) (PStr t) =
     Inr (if spec_straight ranks \<and> length ss = 1 then 5
          else if 3 \<in> set (count_values ranks) then 4
          else if spec_straight ranks then 3
          else if length ss = 1 then 2
          else if 2 \<in> set (count_values ranks) then 1
          else 0)"
    using hand_category_parsed [OF mp, of ss "spec_straight ranks" h] ss st
    unfolding fp sp by simp
  show ?thesis
    unfolding hc ranks_def spec_categorize_3 fl count_values_3 count_values_2 by (rule refl)
qed

lemma spec_categorize_range:
  "spec_categorize [ra, rb, rt] [sa, sb, st] \<in> {0, 1, 2, 3, 4, 5}"
  unfolding spec_categorize_3 by simp

text \<open>
  Claim C2.  For a hand of three parseable card tokens, \<open>hand_category\<close> returns the
  category of the first matching rule of the priority list: straight and flush 5, three
  of a rank 4, straight 3, flush 2, two of a rank 1, otherwise 0; so the result is one of
  0, 1, 2, 3, 4, 5.
\<close>

theorem hand_category_spec:
  assumes "parseable a" "parseable b" "parseable t"
  shows "hand_category (PList [PStr a, PStr b]) (PStr t)
           = Inr (spec_categorize [rank_of a, rank_of b, rank_of t]
                                  [suit_of a, suit_of b, suit_of t])
         \<and> spec_categorize [rank_of a, rank_of b, rank_of t]
                           [suit_of a, suit_of b, suit_of t] \<in> {0, 1, 2, 3, 4, 5}"
  using hand_category_eq [OF assms] spec_categorize_range by blast

lemma rank_of_eval:
  "rank_of (CHR ''2'' # s) = 2" "rank_of (CHR ''3'' # s) = 3" "rank_of (CHR ''4'' # s) = 4"
  "rank_of (CHR ''5'' # s) = 5" "rank_of (CHR ''6'' # s) = 6" "rank_of (CHR ''7'' # s) = 7"
  "rank_of (CHR ''8'' # s) = 8" "rank_of (CHR ''9'' # s) = 9" "rank_of (CHR ''T'' # s) = 10"
  "rank_of (CHR ''J'' # s) = 11" "rank_of (CHR ''Q'' # s) = 12" "rank_of (CHR ''K'' # s) = 13"
  "rank_of (CHR ''A'' # s) = 14"
  by (simp_all add: rank_of_def RANK_VALUE_eval)

theorem hand_category_spec_witness:
  "parseable ''2H'' \<and> parseable ''3H'' \<and> parseable ''AH''
   \<and> hand_category (PList [PStr ''2H'', PStr ''3H'']) (PStr ''AH'') = Inr 5"
proof -
  have p: "parseable ''2H''" "parseable ''3H''" "parseable ''AH''"
    by (simp_all add: parseable_def RANKS_def)
  have "spec_straight [2, 3, 14]" by (auto simp: spec_straight_def)
  then have "spec_categorize [rank_of ''2H'', rank_of ''3H'', rank_of ''AH'']
               [suit_of ''2H'', suit_of ''3H'', suit_of ''AH''] = 5"
    by (simp add: spec_categorize_3 rank_of_eval suit_of_def)
  with hand_category_spec [OF p] p show ?thesis by simp
qed

section \<open>Comparison of hands\<close>

lemma compare_loop_spec: "compare_loop (zip ms os) = Fin (spec_first_difference ms os)"
proof -
  have "compare_loop zs =
      Fin (case filter (\<lambda>(m, o'). m \<noteq> o') zs of
             [] \<Rightarrow> 1 / 2 | (m, o') # rest \<Rightarrow> if m > o' then 1 else 0)" for zs
    by (induction zs rule: compare_loop.induct) auto
  then show ?thesis by (simp add: spec_first_difference_def)
qed

lemma zip_swap: "zip ys xs = map (\<lambda>(m, o'). (o', m)) (zip xs ys)"
  by (induction xs ys rule: list_induct2') auto

lemma first_difference_swap:
  "spec_first_difference os ms = 1 - spec_first_difference ms os"
proof -
  have "(case filter (\<lambda>(m, o'). m \<noteq> o') (map (\<lambda>(m, o'). (o', m)) zs) of
           [] \<Rightarrow> 1 / 2 | (m, o') # rest \<Rightarrow> if m > o' then 1 else (0::rat))
        = 1 - (case filter (\<lambda>(m, o'). m \<noteq> o') zs of
           [] \<Rightarrow> 1 / 2 | (m, o') # rest \<Rightarrow> if m > o' then 1 else 0)"
    for zs :: "(int \<times> int) list"
    by (induction zs) auto
  then show ?thesis
    unfolding spec_first_difference_def zip_swap [of os ms] .
qed

lemma sorted_values_parseable:
  assumes "parseable a" "parseable b" "parseable t"
  shows "sorted_values (PList [PStr a, PStr b]) (PStr t)
           = Inr (rev (sort [rank_of a, rank_of b, rank_of t]))"
  by (simp add: sorted_values_def parse_card_parseable assms)

lemma wheel_remap_tiebreak:
  "c = 5 \<or> c = 3 \<Longrightarrow> wheel_remap (rev (sort vs)) = spec_tiebreak c vs"
  "\<not> (c = 5 \<or> c = 3) \<Longrightarrow> rev (sort vs) = spec_tiebreak c vs"
  by (simp_all add: wheel_remap_def spec_tiebreak_def)

lemma compare_unfold:
  assumes "hand_category A t = Inr ca" "hand_category B t = Inr cb"
    and "sorted_values A t = Inr va" "sorted_values B t = Inr vb"
  shows "compare_hands_internal A t B =
     Inr (if ca > cb then Fin 1 else if cb > ca then Fin 0
          else if ca = 5 \<or> ca = 3
               then compare_loop (zip (wheel_remap va) (wheel_remap vb))
               else compare_loop (zip va vb))"
  using assms by (simp add: compare_hands_internal_def)


lemma compare_eq:
  assumes "parseable a1" "parseable a2" "parseable b1" "parseable b2" "parseable t"
  shows "compare_hands_internal (PList [PStr a1, PStr a2]) (PStr t) (PList [PStr b1, PStr b2])
     = Inr (Fin (spec_compare
          (spec_categorize [rank_of a1, rank_of a2, rank_of t] [suit_of a1, suit_of a2, suit_of t])
          [rank_of a1, rank_of a2, rank_of t]
          (spec_categorize [rank_of b1, rank_of b2, rank_of t] [suit_of b1, suit_of b2, suit_of t])
          [rank_of b1, rank_of b2, rank_of t]))"
proof -
  define va where "va = [rank_of a1, rank_of a2, rank_of t]"
  define vb where "vb = [rank_of b1, rank_of b2, rank_of t]"
  define ca where "ca = spec_categorize va [suit_of a1, suit_of a2, suit_of t]"
  define cb where "cb = spec_categorize vb [suit_of b1, suit_of b2, suit_of t]"
  have ha: "hand_category (PList [PStr a1, PStr a2]) (PStr t) = Inr ca"
    unfolding ca_def va_def using assms by (intro hand_category_eq)
  have hb: "hand_category (PList [PStr b1, PStr b2]) (PStr t) = Inr cb"
    unfolding cb_def vb_def using assms by (intro hand_category_eq)
  have sa: "sorted_values (PList [PStr a1, PStr a2]) (PStr t) = Inr (rev (sort va))"
    unfolding va_def using assms by (intro sorted_values_parseable)
  have sb: "sorted_values (PList [PStr b1, PStr b2]) (PStr t) = Inr (rev (sort vb))"
    unfolding vb_def using assms by (intro sorted_values_parseable)
  have "compare_hands_internal (PList [PStr a1, PStr a2]) (PStr t) (PList [PStr b1, PStr b2])
      = Inr (Fin (spec_compare ca va cb vb))"
  proof (cases "ca = cb")
    case False
    then show ?thesis
      unfolding compare_unfold [OF ha hb sa sb] by (simp add: spec_compare_def)
  next
    case True
    show ?thesis
    proof (cases "ca = 5 \<or> ca = 3")
      case w: True
      then have "cb = 5 \<or> cb = 3" using True by simp
      then show ?thesis
        unfolding compare_unfold [OF ha hb sa sb]
        using True w wheel_remap_tiebreak(1) [of ca va] wheel_remap_tiebreak(1) [of cb vb]
        by (simp add: spec_compare_def compare_loop_spec)
    next
      case w: False
      then have "\<not> (cb = 5 \<or> cb = 3)" using True by simp
      then show ?thesis
        unfolding compare_unfold [OF ha hb sa sb]
        using True w wheel_remap_tiebreak(2) [of ca va] wheel_remap_tiebreak(2) [of cb vb]
        by (simp add: spec_compare_def compare_loop_spec)
    qed
  qed
  then show ?thesis unfolding ca_def cb_def va_def vb_def .
qed

lemma length_spec_tiebreak: "length vs = 3 \<Longrightarrow> length (spec_tiebreak c vs) = 3"
  by (simp add: spec_tiebreak_def)

lemma first_difference_half:
  assumes "length ms = length os"
  shows "(spec_first_difference ms os = 1 / 2) = (ms = os)"
proof -
  have "(filter (\<lambda>(m, o'). m \<noteq> o') (zip ms os) = []) = (ms = os)"
    using assms by (induction ms os rule: list_induct2) auto
  then show ?thesis
    by (auto simp: spec_first_difference_def split: list.splits)
qed

lemma spec_compare_half:
  assumes "length va = 3" "length vb = 3"
  shows "(spec_compare ca va cb vb = 1 / 2) = (ca = cb \<and> spec_tiebreak ca va = spec_tiebreak cb vb)"
  using first_difference_half [of "spec_tiebreak ca va" "spec_tiebreak cb vb"]
    length_spec_tiebreak [OF assms(1), of ca] length_spec_tiebreak [OF assms(2), of cb]
  by (auto simp: spec_compare_def)

lemma spec_compare_swap:
  "spec_compare cb vb ca va = 1 - spec_compare ca va cb vb"
  using first_difference_swap [of "spec_tiebreak cb vb" "spec_tiebreak ca va"]
  by (auto simp: spec_compare_def)

text \<open>
  Claim C3.  For two holes of two parseable tokens and a parseable table card,
  \<open>compare_hands_internal\<close> returns 1 when the first hand's category is higher and 0
  when it is lower; on equal categories it compares the descending rank values (the
  wheel remapped to 3, 2, 1 in categories 5 and 3) position by position, the first
  difference deciding, and returns 0.5 exactly when the two sequences are equal.
\<close>

theorem compare_hands_internal_spec:
  assumes "parseable a1" "parseable a2" "parseable b1" "parseable b2" "parseable t"
  shows "\<exists>ca cb.
      hand_category (PList [PStr a1, PStr a2]) (PStr t) = Inr ca
    \<and> hand_category (PList [PStr b1, PStr b2]) (PStr t) = Inr cb
    \<and> compare_hands_internal (PList [PStr a1, PStr a2]) (PStr t) (PList [PStr b1, PStr b2])
        = Inr (Fin (spec_compare ca [rank_of a1, rank_of a2, rank_of t]
                                 cb [rank_of b1, rank_of b2, rank_of t]))
    \<and> ((compare_hands_internal (PList [PStr a1, PStr a2]) (PStr t) (PList [PStr b1, PStr b2])
          = Inr (Fin (1 / 2)))
        = (ca = cb \<and> spec_tiebreak ca [rank_of a1, rank_of a2, rank_of t]
                      = spec_tiebreak cb [rank_of b1, rank_of b2, rank_of t]))"
proof -
  let ?va = "[rank_of a1, rank_of a2, rank_of t]"
  let ?vb = "[rank_of b1, rank_of b2, rank_of t]"
  let ?ca = "spec_categorize ?va [suit_of a1, suit_of a2, suit_of t]"
  let ?cb = "spec_categorize ?vb [suit_of b1, suit_of b2, suit_of t]"
  have ha: "hand_category (PList [PStr a1, PStr a2]) (PStr t) = Inr ?ca"
    using assms by (intro hand_category_eq)
  have hb: "hand_category (PList [PStr b1, PStr b2]) (PStr t) = Inr ?cb"
    using assms by (intro hand_category_eq)
  have c: "compare_hands_internal (PList [PStr a1, PStr a2]) (PStr t) (PList [PStr b1, PStr b2])
        = Inr (Fin (spec_compare ?ca ?va ?cb ?vb))"
    using assms by (rule compare_eq)
  have h: "(spec_compare ?ca ?va ?cb ?vb = 1 / 2)
      = (?ca = ?cb \<and> spec_tiebreak ?ca ?va = spec_tiebreak ?cb ?vb)"
    by (rule spec_compare_half) simp_all
  show ?thesis
    apply (rule exI [of _ ?ca])
    apply (rule exI [of _ ?cb])
    apply (simp only: ha hb c h sum.inject pyfloat.inject simp_thms)
    done
qed

lemma example_categories:
  "spec_categorize [2, 3, 14] [CHR ''H'', CHR ''D'', CHR ''S''] = 3"
  "spec_categorize [13, 12, 14] [CHR ''H'', CHR ''D'', CHR ''S''] = 3"
proof -
  have "spec_straight [2, 3, 14]" "spec_straight [13, 12, 14]"
    by (auto simp: spec_straight_def)
  then show "spec_categorize [2, 3, 14] [CHR ''H'', CHR ''D'', CHR ''S''] = 3"
    "spec_categorize [13, 12, 14] [CHR ''H'', CHR ''D'', CHR ''S''] = 3"
    by (simp_all add: spec_categorize_3)
qed

lemma example_parseable:
  "parseable ''2H''" "parseable ''3D''" "parseable ''KH''" "parseable ''QD''" "parseable ''AS''"
  by (simp_all add: parseable_def RANKS_def)

lemma example_spec_compare: "spec_compare 3 [2, 3, 14] 3 [13, 12, 14] = 0"
proof -
  have "spec_tiebreak 3 [2, 3, 14] = [3, 2, 1]"
    by (auto simp: spec_tiebreak_def)
  moreover have "spec_tiebreak 3 [13, 12, 14] = [14, 13, 12]"
  proof -
    have "{13, 12, 14} \<noteq> {14, 3, 2 :: int}"
    proof
      assume e: "{13, 12, 14} = {14, 3, 2 :: int}"
      have "(13::int) \<in> {13, 12, 14}" by simp
      then have "(13::int) \<in> {14, 3, 2}" unfolding e .
      then show False by simp
    qed
    then show ?thesis by (simp add: spec_tiebreak_def)
  qed
  ultimately show ?thesis
    by (simp add: spec_compare_def spec_first_difference_def)
qed

theorem compare_hands_internal_spec_witness:
  "parseable ''2H'' \<and> parseable ''3D'' \<and> parseable ''KH'' \<and> parseable ''QD''
   \<and> parseable ''AS''
   \<and> compare_hands_internal (PList [PStr ''2H'', PStr ''3D'']) (PStr ''AS'')
        (PList [PStr ''KH'', PStr ''QD'']) = Inr (Fin 0)"
proof -
  note p = example_parseable
  from compare_hands_internal_spec [OF p(1) p(2) p(3) p(4) p(5)]
  obtain ca cb where
    a: "hand_category (PList [PStr ''2H'', PStr ''3D'']) (PStr ''AS'') = Inr ca" and
    b: "hand_category (PList [PStr ''KH'', PStr ''QD'']) (PStr ''AS'') = Inr cb" and
    c: "compare_hands_internal (PList [PStr ''2H'', PStr ''3D'']) (PStr ''AS'')
          (PList [PStr ''KH'', PStr ''QD''])
        = Inr (Fin (spec_compare ca [rank_of ''2H'', rank_of ''3D'', rank_of ''AS'']
                                 cb [rank_of ''KH'', rank_of ''QD'', rank_of ''AS'']))"
    by blast
  have "ca = 3"
    using a hand_category_eq [OF p(1) p(2) p(5)] example_categories(1)
    by (simp add: rank_of_eval suit_of_def)
  moreover have "cb = 3"
    using b hand_category_eq [OF p(3) p(4) p(5)] example_categories(2)
    by (simp add: rank_of_eval suit_of_def)
  ultimately show ?thesis
    using c p by (simp add: rank_of_eval example_spec_compare)
qed

text \<open>
  Claim C7.  For two holes of two parseable tokens and a parseable table card,
  \<open>compare(A, t, B) = 1 - compare(B, t, A)\<close>, and one of them is 0.5 exactly when the
  other is.
\<close>

theorem compare_antisymmetric:
  assumes "parseable a1" "parseable a2" "parseable b1" "parseable b2" "parseable t"
  shows "(\<exists>x. compare_hands_internal (PList [PStr a1, PStr a2]) (PStr t) (PList [PStr b1, PStr b2])
            = Inr (Fin x)
          \<and> compare_hands_internal (PList [PStr b1, PStr b2]) (PStr t) (PList [PStr a1, PStr a2])
            = Inr (Fin (1 - x)))
       \<and> ((compare_hands_internal (PList [PStr a1, PStr a2]) (PStr t) (PList [PStr b1, PStr b2])
            = Inr (Fin (1 / 2)))
          = (compare_hands_internal (PList [PStr b1, PStr b2]) (PStr t) (PList [PStr a1, PStr a2])
            = Inr (Fin (1 / 2))))"
proof -
  let ?va = "[rank_of a1, rank_of a2, rank_of t]"
  let ?vb = "[rank_of b1, rank_of b2, rank_of t]"
  let ?ca = "spec_categorize ?va [suit_of a1, suit_of a2, suit_of t]"
  let ?cb = "spec_categorize ?vb [suit_of b1, suit_of b2, suit_of t]"
  have ab: "compare_hands_internal (PList [PStr a1, PStr a2]) (PStr t) (PList [PStr b1, PStr b2])
        = Inr (Fin (spec_compare ?ca ?va ?cb ?vb))"
    using assms by (intro compare_eq)
  have sw: "spec_compare ?cb ?vb ?ca ?va = 1 - spec_compare ?ca ?va ?cb ?vb"
    by (rule spec_compare_swap)
  have ba: "compare_hands_internal (PList [PStr b1, PStr b2]) (PStr t) (PList [PStr a1, PStr a2])
        = Inr (Fin (1 - spec_compare ?ca ?va ?cb ?vb))"
    using compare_eq [OF assms(3) assms(4) assms(1) assms(2) assms(5)] unfolding sw .
  show ?thesis
    unfolding ab ba by auto
qed

theorem compare_antisymmetric_witness:
  "parseable ''2H'' \<and> parseable ''3D'' \<and> parseable ''KH'' \<and> parseable ''QD''
   \<and> parseable ''AS''
   \<and> compare_hands_internal (PList [PStr ''2H'', PStr ''3D'']) (PStr ''AS'')
        (PList [PStr ''KH'', PStr ''QD'']) = Inr (Fin 0)
   \<and> compare_hands_internal (PList [PStr ''KH'', PStr ''QD'']) (PStr ''AS'')
        (PList [PStr ''2H'', PStr ''3D'']) = Inr (Fin 1)"
proof -
  note p = example_parseable
  from compare_antisymmetric [OF p(1) p(2) p(3) p(4) p(5)]
  obtain x where
    ab: "compare_hands_internal (PList [PStr ''2H'', PStr ''3D'']) (PStr ''AS'')
           (PList [PStr ''KH'', PStr ''QD'']) = Inr (Fin x)" and
    ba: "compare_hands_internal (PList [PStr ''KH'', PStr ''QD'']) (PStr ''AS'')
           (PList [PStr ''2H'', PStr ''3D'']) = Inr (Fin (1 - x))"
    by blast
  have "compare_hands_internal (PList [PStr ''2H'', PStr ''3D'']) (PStr ''AS'')
          (PList [PStr ''KH'', PStr ''QD'']) = Inr (Fin 0)"
    using compare_eq [OF p(1) p(2) p(3) p(4) p(5)]
    by (simp add: example_categories rank_of_eval suit_of_def example_spec_compare)
  with ab have "x = 0" by simp
  with ab ba p show ?thesis by simp
qed

section \<open>The decision engine: validation, containment, unused input\<close>

lemma and_then_eq_Inr: "(and_then m f = Inr y) = (\<exists>x. m = Inr x \<and> f x = Inr y)"
  by (cases m) simp_all

lemma strategic_logic_actions:
  "strategic_logic equity stats = Inr a \<Longrightarrow> a \<in> {''FOLD'', ''CALL'', ''RAISE''}"
  by (auto simp: strategic_logic_def and_then_eq_Inr Let_def split: if_splits)

lemma decide_action_body_actions:
  "decide_action_body rng state = Inr a \<Longrightarrow> a \<in> {''FOLD'', ''CALL'', ''RAISE''}"
  by (auto simp: decide_action_body_def and_then_eq_Inr split: if_splits
      dest: strategic_logic_actions)

lemma decide_action_actions: "decide_action rng state \<in> {''FOLD'', ''CALL'', ''RAISE''}"
  using decide_action_body_actions [of rng state]
  by (cases "decide_action_body rng state") (auto simp: decide_action_def)

lemma coerce_action_valid:
  "action \<in> {''FOLD'', ''CALL'', ''RAISE''} \<Longrightarrow> coerce_action action = action"
  by (simp add: coerce_action_def)

lemma coerce_action_other:
  "action \<notin> {''FOLD'', ''CALL'', ''RAISE''} \<Longrightarrow> coerce_action action = ''CALL''"
  by (simp add: coerce_action_def)

text \<open>
  Claim C6.  For every input value, well-formed or not, and every outcome of the random
  draws, \<open>decide_action\<close> returns: an exception raised in its body is turned into FOLD,
  an action the body returns is returned, and the result is one of FOLD, CALL and RAISE.
  The I/O layer keeps an action of that set and replaces every other value by CALL, so
  \<open>main\<close> writes the action of \<open>decide_action\<close>.
\<close>

theorem decide_action_never_raises:
  "(\<forall>e. decide_action_body rng state = Inl e \<longrightarrow> decide_action rng state = ''FOLD'')
   \<and> (\<forall>a. decide_action_body rng state = Inr a \<longrightarrow>
          decide_action rng state = a \<and> a \<in> {''FOLD'', ''CALL'', ''RAISE''})
   \<and> decide_action rng state \<in> {''FOLD'', ''CALL'', ''RAISE''}
   \<and> (action \<in> {''FOLD'', ''CALL'', ''RAISE''} \<longrightarrow> coerce_action action = action)
   \<and> (action \<notin> {''FOLD'', ''CALL'', ''RAISE''} \<longrightarrow> coerce_action action = ''CALL'')
   \<and> main_action rng decoded
        = coerce_action (decide_action rng (case decoded of None \<Rightarrow> PDict [] | Some v \<Rightarrow> v))
   \<and> main_action rng decoded \<in> {''FOLD'', ''CALL'', ''RAISE''}
   \<and> main_action rng decoded
        = decide_action rng (case decoded of None \<Rightarrow> PDict [] | Some v \<Rightarrow> v)"
proof -
  let ?state = "case decoded of None \<Rightarrow> PDict [] | Some v \<Rightarrow> v"
  have 1: "\<forall>e. decide_action_body rng state = Inl e \<longrightarrow> decide_action rng state = ''FOLD''"
    by (simp add: decide_action_def)
  have 2: "\<forall>a. decide_action_body rng state = Inr a \<longrightarrow>
          decide_action rng state = a \<and> a \<in> {''FOLD'', ''CALL'', ''RAISE''}"
    using decide_action_body_actions [of rng state] by (simp add: decide_action_def)
  have 3: "main_action rng decoded = coerce_action (decide_action rng ?state)"
    by (simp add: main_action_def)
  have 4: "coerce_action (decide_action rng ?state) = decide_action rng ?state"
    using decide_action_actions by (rule coerce_action_valid)
  show ?thesis
    using 1 2 3 4 decide_action_actions [of rng state] decide_action_actions [of rng ?state]
      coerce_action_valid [of action] coerce_action_other [of action]
    by simp
qed

lemma invalid_input_body:
  assumes "(case map_of kvs ''your_hole'' of None \<Rightarrow> True | Some h \<Rightarrow> \<not> py_truthy h)
         \<or> (case map_of kvs ''table_card'' of None \<Rightarrow> True | Some t \<Rightarrow> \<not> py_truthy t)"
  shows "decide_action_body rng (PDict kvs) = Inr ''FOLD''"
  using assms by (auto simp: decide_action_body_def split: option.splits)

text \<open>
  Claim C8.  When the state has no hole cards (the list is empty or the field is missing)
  or no table card (empty or missing), \<open>decide_action\<close> returns FOLD by its first
  \<open>return\<close>, whatever the other fields and the random draws are.
\<close>

theorem decide_action_invalid_input:
  assumes "(case map_of kvs ''your_hole'' of None \<Rightarrow> True | Some h \<Rightarrow> \<not> py_truthy h)
         \<or> (case map_of kvs ''table_card'' of None \<Rightarrow> True | Some t \<Rightarrow> \<not> py_truthy t)"
  shows "decide_action_body rng (PDict kvs) = Inr ''FOLD''
       \<and> decide_action rng (PDict kvs) = ''FOLD''"
  using invalid_input_body [OF assms, of rng] by (simp add: decide_action_def)

theorem decide_action_invalid_input_witness:
  "decide_action (\<lambda>k. (0, 0))
     (PDict [(''your_hole'', PList []), (''table_card'', PStr ''AH''),
             (''opponent_stats'', PInt 7)]) = ''FOLD''
   \<and> decide_action (\<lambda>k. (0, 0)) (PDict [(''your_hole'', PList [PStr ''AH'', PStr ''KH''])])
       = ''FOLD''"
  using decide_action_invalid_input [of "[(''your_hole'', PList []), (''table_card'', PStr ''AH''),
             (''opponent_stats'', PInt 7)]" "\<lambda>k. (0, 0)"]
    decide_action_invalid_input [of "[(''your_hole'', PList [PStr ''AH'', PStr ''KH''])]"
       "\<lambda>k. (0, 0)"]
  by simp

text \<open>
  Claim C10.  Two states that agree on every field other than \<open>total_rounds\<close> (which
  may also be absent) get the same action for the same random draws.
\<close>

theorem total_rounds_unused:
  assumes "\<forall>k. k \<noteq> ''total_rounds'' \<longrightarrow> map_of kvs1 k = map_of kvs2 k"
  shows "decide_action rng (PDict kvs1) = decide_action rng (PDict kvs2)"
proof -
  have "map_of kvs1 ''your_hole'' = map_of kvs2 ''your_hole''"
    "map_of kvs1 ''table_card'' = map_of kvs2 ''table_card''"
    "map_of kvs1 ''opponent_stats'' = map_of kvs2 ''opponent_stats''"
    using assms by simp_all
  then have "decide_action_body rng (PDict kvs1) = decide_action_body rng (PDict kvs2)"
    by (simp add: decide_action_body_def)
  then show ?thesis by (simp add: decide_action_def)
qed

theorem total_rounds_unused_witness:
  "decide_action (\<lambda>k. (0, 0)) (PDict [(''total_rounds'', PInt 5), (''your_hole'', PList [])])
     = decide_action (\<lambda>k. (0, 0)) (PDict [(''your_hole'', PList [])])"
proof -
  have "\<forall>k. k \<noteq> ''total_rounds'' \<longrightarrow>
          map_of [(''total_rounds'', PInt 5), (''your_hole'', PList [])] k
            = map_of [(''your_hole'', PList [])] k"
    by simp
  from total_rounds_unused [OF this] show ?thesis .
qed

section \<open>The equity estimate\<close>

lemma float_of_rat_between:
  assumes "l \<le> x" "x \<le> u" "round_binary64 l = l" "round_binary64 u = u"
    and "- (2 ^ 1024) < l" "u < 2 ^ 1024"
  shows "\<exists>y. float_of_rat x = Fin y \<and> l \<le> y \<and> y \<le> u"
proof -
  have "round_binary64 l \<le> round_binary64 x" using assms(1) by (rule round_binary64_mono)
  then have lo: "l \<le> round_binary64 x" using assms(3) by simp
  have "round_binary64 x \<le> round_binary64 u" using assms(2) by (rule round_binary64_mono)
  then have hi: "round_binary64 x \<le> u" using assms(4) by simp
  have "float_of_rat x = Fin (round_binary64 x)"
    using lo hi assms(5,6) by (simp add: float_of_rat_def Let_def)
  with lo hi show ?thesis by simp
qed

lemma exact_consts:
  "round_binary64 0 = 0" "round_binary64 1 = 1" "round_binary64 2 = 2" "round_binary64 4 = 4"
  "round_binary64 (5 / 16) = 5 / 16" "round_binary64 (5 / 8) = 5 / 8"
  "round_binary64 (11 / 16) = 11 / 16" "round_binary64 (- (11 / 8)) = - (11 / 8)"
  "round_binary64 (- (3 / 4)) = - (3 / 4)" "round_binary64 (- (7 / 8)) = - (7 / 8)"
  "round_binary64 (1 / 8) = 1 / 8" "round_binary64 (- 1) = - 1" "round_binary64 800 = 800"
  by (simp_all add: float_eval)

lemma float_of_rat_exact:
  assumes "round_binary64 x = x" "- (2 ^ 1024) < x" "x < 2 ^ 1024"
  shows "float_of_rat x = Fin x"
  using assms by (simp add: float_of_rat_def Let_def)

lemma two_pow_1024: "(1::rat) < 2 ^ 1024" "(800::rat) < 2 ^ 1024" "(4::rat) < 2 ^ 1024"
  "(2::rat) < 2 ^ 1024" "(0::rat) < 2 ^ 1024"
proof -
  have "(2::rat) ^ 10 \<le> 2 ^ 1024" by (rule power_increasing) simp_all
  then show "(1::rat) < 2 ^ 1024" "(800::rat) < 2 ^ 1024" "(4::rat) < 2 ^ 1024"
    "(2::rat) < 2 ^ 1024" "(0::rat) < 2 ^ 1024" by simp_all
qed

lemma compare_loop_range: "compare_loop zs \<in> {Fin 0, Fin (1 / 2), Fin 1}"
  by (induction zs rule: compare_loop.induct) auto

lemma compare_result:
  "compare_hands_internal a t b = Inr c \<Longrightarrow> c \<in> {Fin 0, Fin (1 / 2), Fin 1}"
  using compare_loop_range
  by (auto simp: compare_hands_internal_def and_then_eq_Inr Let_def split: if_splits)

lemma float_of_rat_zero: "float_of_rat 0 = Fin 0"
  by (simp add: float_of_rat_def round_binary64_zero)

lemma float_of_int_zero: "float_of_int 0 = Inr (Fin 0)"
  by (simp add: float_of_int_def float_of_rat_zero)

lemma of_nat_exact:
  assumes "B < 2 ^ 52"
  shows "round_binary64 (of_nat B) = of_nat B" "(of_nat B :: rat) < 2 ^ 1024"
proof -
  have "\<bar>int B\<bar> < 2 ^ 53"
  proof -
    have "int B < 2 ^ 52" using assms by (metis of_nat_less_iff of_nat_numeral of_nat_power)
    then show ?thesis by simp
  qed
  from round_binary64_of_int [OF this] show "round_binary64 (of_nat B) = of_nat B" by simp
  have "(of_nat B :: rat) < of_nat (2 ^ 52)" using assms by (simp only: of_nat_less_iff)
  also have "\<dots> = 2 ^ 52" by simp
  also have "\<dots> \<le> (2::rat) ^ 1024" by (rule power_increasing) simp_all
  finally show "(of_nat B :: rat) < 2 ^ 1024" .
qed

lemma float_add_between:
  assumes "0 \<le> w" "w \<le> of_nat B" "c \<in> {0, 1 / 2, 1}" "Suc B < 2 ^ 52"
  shows "\<exists>w'. float_add (Fin w) (Fin c) = Fin w' \<and> 0 \<le> w' \<and> w' \<le> of_nat (Suc B)"
proof -
  have "0 \<le> w + c" "w + c \<le> of_nat (Suc B)" using assms(1-3) by auto
  then show ?thesis
    using float_of_rat_between [of 0 "w + c" "of_nat (Suc B)"] of_nat_exact [OF assms(4)]
    by (simp add: round_binary64_zero)
qed

lemma py_add_wins:
  assumes "wins_inv B wins" "c \<in> {Fin 0, Fin (1 / 2), Fin 1}" "Suc B < 2 ^ 52"
    and "py_add wins (PFloat c) = Inr wins'"
  shows "wins_inv (Suc B) wins'"
proof -
  from assms(2) obtain c' where c: "c = Fin c'" "c' \<in> {0, 1 / 2, 1}" by blast
  from assms(1) consider "wins = PInt 0" | w where "wins = PFloat (Fin w)" "0 \<le> w" "w \<le> of_nat B"
    by (auto simp: wins_inv_def)
  then show ?thesis
  proof cases
    case 1
    have "(0::rat) \<le> of_nat 0" by simp
    from float_add_between [OF order_refl this c(2)] assms(3)
    obtain w' where "float_add (Fin 0) (Fin c') = Fin w'" "0 \<le> w'" "w' \<le> of_nat (Suc 0)"
      by auto
    moreover have "(of_nat (Suc 0) :: rat) \<le> of_nat (Suc B)" by (simp only: of_nat_le_iff)
    ultimately show ?thesis
      using assms(4) 1 c(1)
      by (auto simp: py_add_def to_float_def float_of_int_zero wins_inv_def)
  next
    case 2
    from float_add_between [OF 2(2) 2(3) c(2) assms(3)]
    show ?thesis
      using assms(4) 2(1) c(1) by (auto simp: py_add_def to_float_def wins_inv_def)
  qed
qed

lemma simulate_inv:
  assumes "wins_inv B wins" "B + n < 2 ^ 52"
    and "simulate n rng deck hole table wins = Inr r"
  shows "wins_inv (B + n) r"
  using assms
proof (induction n arbitrary: rng wins B)
  case 0
  then show ?case by simp
next
  case (Suc n)
  from Suc.prems(3) obtain opp c wins' where
    c: "compare_hands_internal hole table (PList (map PStr opp)) = Inr c" and
    a: "py_add wins (PFloat c) = Inr wins'" and
    s: "simulate n (\<lambda>k. rng (Suc k)) deck hole table wins' = Inr r"
    by (auto simp: and_then_eq_Inr)
  have "wins_inv (Suc B) wins'"
    using Suc.prems(1) compare_result [OF c] _ a by (rule py_add_wins) (use Suc.prems(2) in simp)
  from Suc.IH [OF this _ s] Suc.prems(2) show ?case by simp
qed

lemma estimate_equity_range:
  assumes "estimate_equity rng hole table = Inr e"
  shows "\<exists>q. e = Fin q \<and> 0 \<le> q \<and> q \<le> 1"
proof -
  from assms obtain deck wins where
    s: "simulate sims rng deck hole table (PInt 0) = Inr wins" and
    d: "py_truediv wins (PInt (int sims)) = Inr e"
    by (auto simp: estimate_equity_def and_then_eq_Inr)
  have "wins_inv 0 (PInt 0)" by (simp add: wins_inv_def)
  from simulate_inv [OF this _ s] have inv: "wins_inv 800 wins" by (simp add: sims_def)
  have f800: "float_of_int 800 = Inr (Fin 800)"
    using float_of_rat_exact [of 800] by (simp add: float_of_int_def exact_consts two_pow_1024)
  from inv consider "wins = PInt 0" | w where "wins = PFloat (Fin w)" "0 \<le> w" "w \<le> 800"
    by (auto simp: wins_inv_def)
  then show ?thesis
  proof cases
    case 1
    then show ?thesis
      using d by (auto simp: py_truediv_def int_true_divide_def sims_def float_of_rat_zero)
  next
    case 2
    have "0 \<le> w / 800" "w / 800 \<le> 1" using 2(2,3) by simp_all
    from float_of_rat_between [OF this] obtain y where
      "float_of_rat (w / 800) = Fin y" "0 \<le> y" "y \<le> 1"
      by (auto simp: exact_consts two_pow_1024)
    moreover have "e = float_of_rat (w / 800)"
      using d 2(1) by (auto simp: py_truediv_def to_float_def sims_def f800 float_div_def)
    ultimately show ?thesis by blast
  qed
qed

section \<open>Bounds on the expected values\<close>

lemma literal_values:
  "float_literal (35 / 100) = Fin (3152519739159347 / 2 ^ 53)"
  "float_literal (5 / 100) = Fin (3602879701896397 / 2 ^ 56)"
  "float_literal (95 / 100) = Fin (4278419646001971 / 2 ^ 52)"
  "float_literal (30 / 100) = Fin (5404319552844595 / 2 ^ 54)"
  "float_literal (10 / 100) = Fin (3602879701896397 / 2 ^ 55)"
  by (simp_all add: float_literal_def float_of_rat_def float_eval)

lemma float_of_rat_interval:
  assumes "l \<le> x" "x \<le> u" "round_binary64 l = l'" "round_binary64 u = u'"
    and "\<bar>l'\<bar> \<le> 4" "\<bar>u'\<bar> \<le> 4"
  shows "\<exists>y. float_of_rat x = Fin y \<and> l' \<le> y \<and> y \<le> u'"
proof -
  have "round_binary64 l \<le> round_binary64 x" using assms(1) by (rule round_binary64_mono)
  then have lo: "l' \<le> round_binary64 x" using assms(3) by simp
  have "round_binary64 x \<le> round_binary64 u" using assms(2) by (rule round_binary64_mono)
  then have hi: "round_binary64 x \<le> u'" using assms(4) by simp
  have "- (2 ^ 1024) < l'" "u' < 2 ^ 1024" using assms(5,6) two_pow_1024(3) by linarith+
  then have "float_of_rat x = Fin (round_binary64 x)"
    using lo hi by (simp add: float_of_rat_def Let_def)
  with lo hi show ?thesis by simp
qed

lemma mult_lower_bound:
  fixes t sd :: rat
  assumes "0 \<le> t" "t \<le> T" "S \<le> sd" "S \<le> 0"
  shows "T * S \<le> t * sd"
proof (cases "0 \<le> sd")
  case True
  have "T * S \<le> 0" using assms by (simp add: mult_nonneg_nonpos)
  also have "0 \<le> t * sd" using assms(1) True by simp
  finally show ?thesis .
next
  case False
  have "T * S \<le> T * sd" using assms by (intro mult_left_mono) auto
  also have "\<dots> \<le> t * sd" using assms(2) False by (intro mult_right_mono_neg) auto
  finally show ?thesis .
qed

lemma mult_upper_bound:
  fixes t sd :: rat
  assumes "0 \<le> t" "t \<le> 1" "sd \<le> u" "0 \<le> u"
  shows "t * sd \<le> u"
proof -
  have "t * sd \<le> t * u" using assms by (intro mult_left_mono) auto
  also have "\<dots> \<le> 1 * u" using assms by (intro mult_right_mono) auto
  finally show ?thesis by simp
qed

lemma ev_call_lower:
  assumes q: "3152519739159347 / 2 ^ 53 \<le> q" "q \<le> 1"
    and p: "3602879701896397 / 2 ^ 56 \<le> p" "p \<le> 1"
  shows "\<exists>v. ev_call_of (Fin q) (Fin p) = Fin v \<and> - (4233383649728267 / 2 ^ 53) \<le> v"
proof -
  define E0 :: rat where "E0 = 3152519739159347 / 2 ^ 53"
  define A1 :: rat where "A1 = 3152519739159347 / 2 ^ 52"
  define S0 :: rat where "S0 = 5854679515581645 / 2 ^ 53"
  define A2 :: rat where "A2 = - (5854679515581645 / 2 ^ 52)"
  define SD0 :: rat where "SD0 = - (1351079888211149 / 2 ^ 51)"
  define L :: rat where "L = 3602879701896397 / 2 ^ 56"
  define B1 :: rat where "B1 = 3602879701896397 / 2 ^ 55"
  define T0 :: rat where "T0 = 4278419646001971 / 2 ^ 52"
  define B0 :: rat where "B0 = - (2567051787601183 / 2 ^ 52)"
  define V0 :: rat where "V0 = - (4233383649728267 / 2 ^ 53)"
  note defs = E0_def A1_def S0_def A2_def SD0_def L_def B1_def T0_def B0_def V0_def
  have R: "round_binary64 A1 = A1" "round_binary64 (1 - E0) = S0"
    "round_binary64 (- (S0 * 2)) = A2" "round_binary64 (A1 + A2) = SD0"
    "round_binary64 B1 = B1" "round_binary64 (1 - L) = T0"
    "round_binary64 (T0 * SD0) = B0" "round_binary64 (B1 + B0) = V0"
    unfolding defs by (simp_all add: float_eval)
  have small: "\<bar>A1\<bar> \<le> 4" "\<bar>S0\<bar> \<le> 4" "\<bar>A2\<bar> \<le> 4" "\<bar>SD0\<bar> \<le> 4" "\<bar>B1\<bar> \<le> 4"
    "\<bar>T0\<bar> \<le> 4" "\<bar>B0\<bar> \<le> 4" "\<bar>V0\<bar> \<le> 4" "\<bar>0::rat\<bar> \<le> 4" "\<bar>2::rat\<bar> \<le> 4" "\<bar>4::rat\<bar> \<le> 4"
    unfolding defs by simp_all
  have rel: "A1 = E0 * 2" "B1 = L * 2" "T0 \<le> 1" "SD0 \<le> 0"
    unfolding defs by simp_all
  have q0: "E0 \<le> q" using q(1) by (simp add: E0_def)
  have p0: "L \<le> p" using p(1) by (simp add: L_def)
  have le_a1: "A1 \<le> q * 2" "q * 2 \<le> 2"
    using q0 q(2) rel(1) by simp_all
  from float_of_rat_interval [OF le_a1 R(1) exact_consts(3) small(1) small(10)]
  obtain a1 where a1: "float_of_rat (q * 2) = Fin a1" "A1 \<le> a1" "a1 \<le> 2"
    by blast
  have le_s: "0 \<le> 1 - q" "1 - q \<le> 1 - E0"
    using q0 q(2) by simp_all
  from float_of_rat_interval [OF le_s exact_consts(1) R(2) small(9) small(2)]
  obtain s where s: "float_of_rat (1 - q) = Fin s" "0 \<le> s" "s \<le> S0"
    by blast
  have le_a2: "- (S0 * 2) \<le> - (s * 2)" "- (s * 2) \<le> 0"
    using s(2) s(3) by simp_all
  from float_of_rat_interval [OF le_a2 R(3) exact_consts(1) small(3) small(9)]
  obtain a2 where a2: "float_of_rat (- (s * 2)) = Fin a2" "A2 \<le> a2" "a2 \<le> 0"
    by blast
  have le_sd: "A1 + A2 \<le> a1 + a2" "a1 + a2 \<le> 2"
    using a1(2) a1(3) a2(2) a2(3) by simp_all
  from float_of_rat_interval [OF le_sd R(4) exact_consts(3) small(4) small(10)]
  obtain sd where sd: "float_of_rat (a1 + a2) = Fin sd" "SD0 \<le> sd" "sd \<le> 2"
    by blast
  have le_b1: "B1 \<le> p * 2" "p * 2 \<le> 2"
    using p0 p(2) rel(2) by simp_all
  from float_of_rat_interval [OF le_b1 R(5) exact_consts(3) small(5) small(10)]
  obtain b1 where b1: "float_of_rat (p * 2) = Fin b1" "B1 \<le> b1" "b1 \<le> 2"
    by blast
  have le_t: "0 \<le> 1 - p" "1 - p \<le> 1 - L"
    using p0 p(2) by simp_all
  from float_of_rat_interval [OF le_t exact_consts(1) R(6) small(9) small(6)]
  obtain t where t: "float_of_rat (1 - p) = Fin t" "0 \<le> t" "t \<le> T0"
    by blast
  have t1: "t \<le> 1" using t(3) rel(3) by simp
  have le_b2: "T0 * SD0 \<le> t * sd" "t * sd \<le> 2"
  proof -
    show "T0 * SD0 \<le> t * sd" using t(2) t(3) sd(2) rel(4) by (rule mult_lower_bound)
    show "t * sd \<le> 2" using t(2) t1 sd(3) by (rule mult_upper_bound) simp
  qed
  from float_of_rat_interval [OF le_b2 R(7) exact_consts(3) small(7) small(10)]
  obtain b2 where b2: "float_of_rat (t * sd) = Fin b2" "B0 \<le> b2" "b2 \<le> 2"
    by blast
  have le_v: "B1 + B0 \<le> b1 + b2" "b1 + b2 \<le> 4"
    using b1(2) b1(3) b2(2) b2(3) by simp_all
  from float_of_rat_interval [OF le_v R(8) exact_consts(4) small(8) small(11)]
  obtain v where v: "float_of_rat (b1 + b2) = Fin v" "V0 \<le> v" "v \<le> 4"
    by blast
  have "ev_call_of (Fin q) (Fin p) = Fin v"
    by (simp add: ev_call_of_def float_sub_def a1 s a2 sd b1 t b2 v)
  with v(2) show ?thesis unfolding V0_def by blast
qed

section \<open>The strategic logic\<close>

lemma threshold_value:
  "float_add (Fin (- 1)) (float_literal (10 / 100)) = Fin (- (8106479329266893 / 2 ^ 53))"
  unfolding literal_values by (simp add: float_of_rat_def float_eval)

lemma clamp_range:
  assumes "l \<le> u"
  shows "\<exists>p. py_max (Fin l) (py_min (Fin u) x) = Fin p \<and> l \<le> p \<and> p \<le> u"
  using assms by (cases x) (auto simp: py_max_def py_min_def float_gt_def)

lemma fold_frequency_range:
  assumes "fold_frequency stats = Inr f"
  shows "\<exists>p. f = Fin p \<and> 3602879701896397 / 2 ^ 56 \<le> p \<and> p \<le> 4278419646001971 / 2 ^ 52"
proof -
  have lu: "(3602879701896397 / 2 ^ 56 :: rat) \<le> 4278419646001971 / 2 ^ 52" by simp
  from assms consider q where
      "f = py_max (float_literal (5 / 100)) (py_min (float_literal (95 / 100)) q)"
    | "f = float_literal (30 / 100)"
    by (auto simp: fold_frequency_def and_then_eq_Inr split: if_splits)
  then show ?thesis
  proof cases
    case 1
    then show ?thesis using clamp_range [OF lu, of q] unfolding literal_values by simp
  next
    case 2
    have "(3602879701896397 / 2 ^ 56 :: rat) \<le> 5404319552844595 / 2 ^ 54"
      "(5404319552844595 / 2 ^ 54 :: rat) \<le> 4278419646001971 / 2 ^ 52"
      by simp_all
    with 2 show ?thesis unfolding literal_values by blast
  qed
qed

lemma strategic_logic_call_or_raise:
  assumes "equity = Fin q" "0 \<le> q" "q \<le> 1"
    and "\<not> float_lt equity (float_literal (35 / 100))"
    and "fold_frequency stats = Inr f"
  shows "strategic_logic equity stats \<in> {Inr ''CALL'', Inr ''RAISE''}
       \<and> (\<exists>v w. ev_call_of equity f = Fin v
              \<and> float_add (Fin (- 1)) (float_literal (10 / 100)) = Fin w
              \<and> - (4233383649728267 / 2 ^ 53) \<le> v \<and> w \<le> - (9 / 10) \<and> w < v)"
proof -
  from fold_frequency_range [OF assms(5)] obtain p where
    p: "f = Fin p" "3602879701896397 / 2 ^ 56 \<le> p" "p \<le> 4278419646001971 / 2 ^ 52"
    by blast
  have p1: "p \<le> 1" using p(3) by simp
  have q0: "3152519739159347 / 2 ^ 53 \<le> q"
    using assms(4) unfolding assms(1) literal_values by simp
  from ev_call_lower [OF q0 assms(3) p(2) p1] obtain v where
    v: "ev_call_of (Fin q) (Fin p) = Fin v" "- (4233383649728267 / 2 ^ 53) \<le> v"
    by blast
  have gt: "float_gt (ev_call_of equity f) (float_add (Fin (- 1)) (float_literal (10 / 100)))"
    using v unfolding assms(1) p(1) threshold_value float_gt_def by simp
  have 1: "strategic_logic equity stats \<in> {Inr ''CALL'', Inr ''RAISE''}"
    using assms(4,5) gt by (simp add: strategic_logic_def Let_def)
  have 2: "ev_call_of equity f = Fin v
      \<and> float_add (Fin (- 1)) (float_literal (10 / 100)) = Fin (- (8106479329266893 / 2 ^ 53))
      \<and> - (4233383649728267 / 2 ^ 53) \<le> v \<and> - (8106479329266893 / 2 ^ 53) \<le> - (9 / 10 :: rat)
      \<and> - (8106479329266893 / 2 ^ 53) < v"
    using v unfolding assms(1) p(1) threshold_value by simp
  from 1 2 show ?thesis by blast
qed

section \<open>Evaluating the estimate on constant draws\<close>

lemma float_of_rat_nat:
  assumes "n < 2 ^ 52"
  shows "float_of_rat (of_nat n) = Fin (of_nat n)"
proof -
  have "(- (2 ^ 1024) :: rat) < 0" by simp
  also have "(0::rat) \<le> of_nat n" by simp
  finally show ?thesis
    using of_nat_exact [OF assms] by (intro float_of_rat_exact) auto
qed

lemma simulate_const:
  assumes "random_sample_2 d deck = Inr opp"
    and "compare_hands_internal hole table (PList (map PStr opp)) = Inr (Fin c)"
    and "c = 0 \<or> c = 1" "k + n < 2 ^ 52"
  shows "simulate n (\<lambda>i. d) deck hole table (PFloat (Fin (of_nat k * c)))
           = Inr (PFloat (Fin (of_nat (k + n) * c)))"
  using assms(4)
proof (induction n arbitrary: k)
  case 0
  then show ?case by simp
next
  case (Suc n)
  have "float_add (Fin (of_nat k * c)) (Fin c) = Fin (of_nat (Suc k) * c)"
  proof -
    have "of_nat k * c + c = of_nat (Suc k) * c" by (simp add: algebra_simps)
    moreover have "float_of_rat (of_nat (Suc k) * c) = Fin (of_nat (Suc k) * c)"
      using assms(3) float_of_rat_nat [of "Suc k"] float_of_rat_zero Suc.prems by auto
    ultimately show ?thesis by simp
  qed
  then have "py_add (PFloat (Fin (of_nat k * c))) (PFloat (Fin c))
      = Inr (PFloat (Fin (of_nat (Suc k) * c)))"
    by (simp add: py_add_def to_float_def)
  moreover have "simulate n (\<lambda>i. d) deck hole table (PFloat (Fin (of_nat (Suc k) * c)))
      = Inr (PFloat (Fin (of_nat (Suc k + n) * c)))"
    using Suc.prems by (intro Suc.IH) simp
  ultimately show ?case by (simp add: assms(1,2))
qed

lemma estimate_equity_const:
  assumes "build_deck hole table = Inr deck"
    and "random_sample_2 d deck = Inr opp"
    and "compare_hands_internal hole table (PList (map PStr opp)) = Inr (Fin c)"
    and "c = 0 \<or> c = 1"
  shows "estimate_equity (\<lambda>i. d) hole table = Inr (Fin c)"
proof -
  have first: "py_add (PInt 0) (PFloat (Fin c)) = Inr (PFloat (Fin (of_nat 1 * c)))"
    using assms(4) float_of_rat_zero float_of_rat_nat [of 1]
    by (auto simp: py_add_def to_float_def float_of_int_zero)
  have rest: "simulate 799 (\<lambda>i. d) deck hole table (PFloat (Fin (of_nat 1 * c)))
      = Inr (PFloat (Fin (of_nat (1 + 799) * c)))"
    by (rule simulate_const [OF assms(2,3,4)]) simp
  have step: "simulate (Suc 799) (\<lambda>i. d) deck hole table (PInt 0)
      = simulate 799 (\<lambda>i. d) deck hole table (PFloat (Fin (of_nat 1 * c)))"
    by (simp only: simulate.simps assms(2,3) and_then_simps first)
  have s800: "sims = Suc 799" by (simp add: sims_def)
  have sim: "simulate sims (\<lambda>i. d) deck hole table (PInt 0) = Inr (PFloat (Fin (800 * c)))"
    unfolding s800 step rest by simp
  have f800: "float_of_int 800 = Inr (Fin 800)"
    using float_of_rat_exact [of 800] by (simp add: float_of_int_def exact_consts two_pow_1024)
  have "float_of_rat c = Fin c"
    using assms(4) float_of_rat_zero float_of_rat_nat [of 1] by auto
  then have "py_truediv (PFloat (Fin (800 * c))) (PInt (int sims)) = Inr (Fin c)"
    by (simp add: py_truediv_def to_float_def sims_def f800 float_div_def)
  then show ?thesis
    by (simp add: estimate_equity_def assms(1) sim)
qed

lemma deck_loop_list:
  "deck_loop cs (PList xs) table deck
     = Inr (deck @ filter (\<lambda>c. PStr c \<notin> set xs \<and> PStr c \<noteq> table) cs)"
  by (induction cs arbitrary: deck) simp_all

lemma build_deck_list:
  "build_deck (PList xs) table
     = Inr (filter (\<lambda>c. PStr c \<notin> set xs \<and> PStr c \<noteq> table) all_cards)"
  by (simp add: build_deck_def deck_loop_list)

lemma all_cards_head: "all_cards = ''2H'' # ''2D'' # ''2S'' # drop 3 all_cards"
  by (simp add: all_cards_def)

lemma random_sample_2_first: "random_sample_2 (0, 0) (a # b # more) = Inr [a, b]"
  by (simp add: random_sample_2_def)

lemma deck_example_high:
  "\<exists>more. build_deck (PList [PStr ''AH'', PStr ''AD'']) (PStr ''AS'')
            = Inr (''2H'' # ''2D'' # more)"
  unfolding build_deck_list by (subst all_cards_head) simp

lemma deck_example_low:
  "\<exists>more. build_deck (PList [PStr ''2H'', PStr ''3D'']) (PStr ''7S'')
            = Inr (''2D'' # ''2S'' # more)"
  unfolding build_deck_list by (subst all_cards_head) simp

section \<open>The strategic logic against the specification\<close>

lemma fold_frequency_default: "fold_frequency (PDict []) = Inr (float_literal (30 / 100))"
  by (simp add: fold_frequency_def py_add_def py_gt_int_def)

lemma ev_one_default:
  "ev_call_of (Fin 1) (Fin (5404319552844595 / 2 ^ 54)) = Fin 2"
  "ev_raise_of (Fin 1) (Fin (5404319552844595 / 2 ^ 54)) = Fin (6755399441055743 / 2 ^ 51)"
  unfolding ev_call_of_def ev_raise_of_def
  by (simp_all add: float_sub_def float_of_rat_def float_eval)

lemma raise_threshold_default:
  "float_add (Fin 2) (Fin (3602879701896397 / 2 ^ 55)) = Fin (4728779608739021 / 2 ^ 51)"
  by (simp add: float_of_rat_def float_eval)

lemma spec_action_eq:
  "spec_action e f =
     (if float_gt (ev_raise_of e f) (float_add (ev_call_of e f) (float_literal (10 / 100)))
         \<and> float_gt (ev_raise_of e f) (Fin (- 1))
      then ''RAISE''
      else if float_gt (ev_call_of e f) (float_add (Fin (- 1)) (float_literal (10 / 100)))
      then ''CALL'' else ''FOLD'')"
  by (simp add: spec_action_def ev_call_of_def ev_raise_of_def Let_def)

lemma spec_action_sure_win: "spec_action (Fin 1) (float_literal (30 / 100)) = ''RAISE''"
  unfolding spec_action_eq literal_values ev_one_default raise_threshold_default float_gt_def
  by simp

lemma strategic_logic_spec:
  assumes "\<not> float_lt equity (float_literal (35 / 100))" "fold_frequency stats = Inr f"
  shows "strategic_logic equity stats = Inr (spec_action equity f)"
  using assms by (simp add: strategic_logic_def spec_action_eq Let_def)

lemma count_of_get:
  assumes "count_of kvs key = Some n"
  shows "py_get (PDict kvs) key (PInt 0) = Inr (PInt n)"
  using assms by (auto simp: count_of_def split: option.splits pyval.splits)

lemma clamp_eq:
  assumes "l \<le> u"
  shows "py_max (Fin l) (py_min (Fin u) (Fin y)) = spec_clamp (Fin y) (Fin l) (Fin u)"
  using assms by (auto simp: py_max_def py_min_def spec_clamp_def float_gt_def)

lemma nonneg_counts_representable:
  assumes "0 \<le> a" "0 \<le> b" "0 \<le> c" "5 < a + b + c"
  shows "ratio_representable a (a + b + c)"
proof -
  have "(0::rat) \<le> of_int a / of_int (a + b + c)" "(of_int a / of_int (a + b + c) :: rat) \<le> 1"
    using assms by simp_all
  from float_of_rat_between [OF this] obtain y where
    "float_of_rat (of_int a / of_int (a + b + c)) = Fin y"
    by (auto simp: exact_consts two_pow_1024)
  then show ?thesis by (simp add: ratio_representable_def)
qed

lemma fold_frequency_counts:
  assumes "count_of kvs ''fold'' = Some n_fold" "count_of kvs ''call'' = Some n_call"
    and "count_of kvs ''raise'' = Some n_raise"
    and "n_fold + n_call + n_raise \<le> 5
         \<or> ratio_representable n_fold (n_fold + n_call + n_raise)"
  shows "fold_frequency (PDict kvs) = Inr (spec_fold_freq n_fold n_call n_raise)"
proof -
  note g = count_of_get [OF assms(1)] count_of_get [OF assms(2)] count_of_get [OF assms(3)]
  define n_actions where "n_actions = n_fold + n_call + n_raise"
  have lu: "(3602879701896397 / 2 ^ 56 :: rat) \<le> 4278419646001971 / 2 ^ 52" by simp
  show ?thesis
  proof (cases "5 < n_actions")
    case True
    then have "ratio_representable n_fold n_actions"
      using assms(4) by (simp add: n_actions_def)
    then obtain y where y: "float_of_rat (of_int n_fold / of_int n_actions) = Fin y"
      by (auto simp: ratio_representable_def split: pyfloat.splits)
    then have d: "int_true_divide n_fold n_actions = Inr (Fin y)"
      using True by (simp add: int_true_divide_def)
    have "fold_frequency (PDict kvs) =
        Inr (py_max (float_literal (5 / 100)) (py_min (float_literal (95 / 100)) (Fin y)))"
      using True d
      by (simp add: fold_frequency_def g py_add_def py_gt_int_def py_truediv_def
          n_actions_def del: py_get.simps)
    also have "\<dots> = Inr (spec_fold_freq n_fold n_call n_raise)"
      using True y clamp_eq [OF lu, of y]
      unfolding spec_fold_freq_def Let_def n_actions_def [symmetric] literal_values
      by simp
    finally show ?thesis .
  next
    case False
    then show ?thesis
      by (simp add: fold_frequency_def g py_add_def py_gt_int_def spec_fold_freq_def
          n_actions_def del: py_get.simps)
  qed
qed

text \<open>Where the ratio is not representable the division raises and nothing is returned.\<close>

lemma fold_frequency_overflow:
  assumes "count_of kvs ''fold'' = Some n_fold" "count_of kvs ''call'' = Some n_call"
    and "count_of kvs ''raise'' = Some n_raise"
    and "5 < n_fold + n_call + n_raise"
    and "\<not> ratio_representable n_fold (n_fold + n_call + n_raise)"
  shows "fold_frequency (PDict kvs) = Inl OverflowError"
proof -
  note g = count_of_get [OF assms(1)] count_of_get [OF assms(2)] count_of_get [OF assms(3)]
  have "int_true_divide n_fold (n_fold + n_call + n_raise) = Inl OverflowError"
    using assms(4,5)
    by (auto simp: int_true_divide_def ratio_representable_def split: pyfloat.splits)
  then show ?thesis
    using assms(4)
    by (simp add: fold_frequency_def g py_add_def py_gt_int_def py_truediv_def
        del: py_get.simps)
qed

lemma strategic_logic_sure_win: "strategic_logic (Fin 1) (PDict []) = Inr ''RAISE''"
proof -
  have "\<not> float_lt (Fin 1) (float_literal (35 / 100))"
    unfolding literal_values by simp
  from strategic_logic_spec [OF this fold_frequency_default] show ?thesis
    by (simp only: spec_action_sure_win)
qed

section \<open>The decision engine: trash filter, expected values, decision\<close>

lemma py_get_Inr_dict:
  assumes "py_get state key dflt = Inr v"
  shows "\<exists>kvs. state = PDict kvs"
  using assms by (cases state) simp_all

lemma decide_action_body_valid:
  assumes "py_get state ''your_hole'' (PList []) = Inr hole"
    and "py_get state ''table_card'' (PStr []) = Inr table"
    and "py_get state ''opponent_stats'' (PDict []) = Inr stats"
    and "py_truthy hole" "py_truthy table"
    and "estimate_equity rng hole table = Inr equity"
  shows "decide_action_body rng state = strategic_logic equity stats"
proof -
  from py_get_Inr_dict [OF assms(1)] obtain kvs where s: "state = PDict kvs" by blast
  then obtain n where "py_get state ''total_rounds'' (PInt 1001) = Inr n" by simp
  then show ?thesis
    using assms by (simp add: decide_action_body_def del: py_get.simps)
qed

lemma strategic_logic_trash:
  assumes "float_lt equity (float_literal (35 / 100))"
  shows "strategic_logic equity stats = Inr ''FOLD''"
  using assms by (simp add: strategic_logic_def)

text \<open>
  Claim C5.  When the hole and the table card pass the validation and the equity
  computed by the simulation is below 0.35, \<open>decide_action\<close> returns FOLD by the
  trash filter, whatever the opponent statistics are (they are not looked at: the
  strategic logic returns FOLD for every value \<open>stats'\<close> in their place).
\<close>

theorem trash_filter_folds:
  assumes "py_get state ''your_hole'' (PList []) = Inr hole"
    and "py_get state ''table_card'' (PStr []) = Inr table"
    and "py_truthy hole" "py_truthy table"
    and "estimate_equity rng hole table = Inr equity"
    and "float_lt equity (float_literal (35 / 100))"
  shows "decide_action_body rng state = Inr ''FOLD''
       \<and> decide_action rng state = ''FOLD''
       \<and> strategic_logic equity stats' = Inr ''FOLD''"
proof -
  from py_get_Inr_dict [OF assms(1)] obtain kvs where s: "state = PDict kvs" by blast
  then obtain stats where "py_get state ''opponent_stats'' (PDict []) = Inr stats" by simp
  from decide_action_body_valid [OF assms(1,2) this assms(3,4,5)]
  have "decide_action_body rng state = Inr ''FOLD''"
    by (simp add: strategic_logic_trash [OF assms(6)])
  then show ?thesis
    by (simp add: decide_action_def strategic_logic_trash [OF assms(6)])
qed

lemma exact_ev_call_lower:
  assumes "35 / 100 \<le> e" "5 / 100 \<le> f" "f \<le> 95 / 100"
  shows "- (47 / 100) \<le> exact_ev_call f e"
proof -
  have nn: "0 \<le> 1 - f" using assms(3) by simp
  have lo: "- (3 / 5) \<le> 4 * e - 2" using assms(1) by simp
  have a: "(1 - f) * (- (3 / 5)) \<le> (1 - f) * (4 * e - 2)"
    using lo nn by (rule mult_left_mono)
  have b: "(1 - f) * (- (3 / 5)) = 3 / 5 * f - 3 / 5"
    by (simp add: field_simps)
  have "2 * f + (3 / 5 * f - 3 / 5) \<le> exact_ev_call f e"
    using a unfolding b exact_ev_call_def by simp
  then show ?thesis using assms(2) by linarith
qed

lemma strategic_logic_raised:
  assumes "\<not> float_lt equity (float_literal (35 / 100))" "fold_frequency stats = Inl err"
  shows "strategic_logic equity stats = Inl err"
  using assms by (simp add: strategic_logic_def)

text \<open>
  Claim C9, amended.  When the request passes the validation and the computed equity is
  not below 0.35, no \<open>return "FOLD"\<close> of the body is reached: the last one is
  unreachable.  The action is CALL or RAISE whenever the analysis of the opponent
  statistics raises nothing, and FOLD, from the exception handler, when it raises.  The
  fold frequency is 0.30 or clamped into [0.05, 0.95]; the computed \<open>ev_call\<close> is at
  least -4233383649728267 / 2^53 (the float -0.4700000000000001) and exceeds the computed
  \<open>ev_fold + 0.10\<close>, which is at most -0.9.  In exact arithmetic the closed form of
  \<open>ev_call\<close> is at least -0.47 for every equity from 0.35 and every fold frequency in
  [0.05, 0.95].
\<close>

theorem fold_fallback_unreachable:
  assumes "py_get state ''your_hole'' (PList []) = Inr hole"
    and "py_get state ''table_card'' (PStr []) = Inr table"
    and "py_get state ''opponent_stats'' (PDict []) = Inr stats"
    and "py_truthy hole" "py_truthy table"
    and "estimate_equity rng hole table = Inr equity"
    and "\<not> float_lt equity (float_literal (35 / 100))"
  shows "decide_action_body rng state \<noteq> Inr ''FOLD''
       \<and> (\<forall>fold_freq. fold_frequency stats = Inr fold_freq \<longrightarrow>
            decide_action rng state \<in> {''CALL'', ''RAISE''}
            \<and> (\<exists>v w. ev_call_of equity fold_freq = Fin v
                  \<and> float_add (Fin (- 1)) (float_literal (10 / 100)) = Fin w
                  \<and> - (4233383649728267 / 2 ^ 53) \<le> v \<and> w \<le> - (9 / 10) \<and> w < v))
       \<and> (\<forall>err. fold_frequency stats = Inl err \<longrightarrow>
            decide_action_body rng state = Inl err \<and> decide_action rng state = ''FOLD'')
       \<and> (35 / 100 \<le> e' \<and> 5 / 100 \<le> f' \<and> f' \<le> 95 / 100
            \<longrightarrow> - (47 / 100) \<le> exact_ev_call f' e')"
proof -
  from estimate_equity_range [OF assms(6)] obtain q where
    q: "equity = Fin q" "0 \<le> q" "q \<le> 1" by blast
  have body: "decide_action_body rng state = strategic_logic equity stats"
    using assms(1-6) by (rule decide_action_body_valid)
  have ok: "decide_action rng state \<in> {''CALL'', ''RAISE''}
            \<and> (\<exists>v w. ev_call_of equity fold_freq = Fin v
                  \<and> float_add (Fin (- 1)) (float_literal (10 / 100)) = Fin w
                  \<and> - (4233383649728267 / 2 ^ 53) \<le> v \<and> w \<le> - (9 / 10) \<and> w < v)"
    if f: "fold_frequency stats = Inr fold_freq" for fold_freq
  proof -
    note sl = strategic_logic_call_or_raise [OF q assms(7) f]
    from sl body have "decide_action rng state \<in> {''CALL'', ''RAISE''}"
      by (auto simp: decide_action_def)
    with sl show ?thesis by blast
  qed
  have raised: "decide_action_body rng state = Inl err \<and> decide_action rng state = ''FOLD''"
    if f: "fold_frequency stats = Inl err" for err
    using strategic_logic_raised [OF assms(7) f] body by (simp add: decide_action_def)
  have "decide_action_body rng state \<noteq> Inr ''FOLD''"
  proof (cases "fold_frequency stats")
    case (Inl err)
    from raised [OF this] show ?thesis by simp
  next
    case (Inr fold_freq)
    from strategic_logic_call_or_raise [OF q assms(7) this] body show ?thesis by auto
  qed
  with ok raised exact_ev_call_lower [of e' f'] show ?thesis by blast
qed

text \<open>
  Claim C1, amended.  When the request passes the validation, the opponent statistics
  are a mapping whose fold, call and raise are integers or absent, the ratio of the folds
  is representable when more than five actions are counted (as it is for counts that
  are not negative) and the computed equity \<open>e\<close> is not below 0.35, \<open>decide_action\<close>
  returns the action of the specification's rule: the fold frequency is the clamped
  ratio when more than five actions were counted and 0.30 otherwise, and the action is
  RAISE, CALL or FOLD by the two comparisons of the expected values.  With \<open>e = 1\<close> and
  the default fold frequency the action is RAISE.
\<close>

theorem decide_action_follows_rule:
  assumes "py_get state ''your_hole'' (PList []) = Inr hole"
    and "py_get state ''table_card'' (PStr []) = Inr table"
    and "py_get state ''opponent_stats'' (PDict []) = Inr (PDict counts)"
    and "py_truthy hole" "py_truthy table"
    and "count_of counts ''fold'' = Some n_fold"
    and "count_of counts ''call'' = Some n_call"
    and "count_of counts ''raise'' = Some n_raise"
    and "n_fold + n_call + n_raise \<le> 5
         \<or> ratio_representable n_fold (n_fold + n_call + n_raise)"
    and "estimate_equity rng hole table = Inr e"
    and "\<not> float_lt e (float_literal (35 / 100))"
  shows "decide_action rng state = spec_action e (spec_fold_freq n_fold n_call n_raise)
       \<and> spec_action (Fin 1) (float_literal (30 / 100)) = ''RAISE''
       \<and> strategic_logic (Fin 1) (PDict []) = Inr ''RAISE''
       \<and> (0 \<le> a \<and> 0 \<le> b \<and> 0 \<le> c \<and> 5 < a + b + c
            \<longrightarrow> ratio_representable a (a + b + c))"
proof -
  have "decide_action_body rng state = strategic_logic e (PDict counts)"
    using assms(1-5,10) by (rule decide_action_body_valid)
  also have "\<dots> = Inr (spec_action e (spec_fold_freq n_fold n_call n_raise))"
    using assms(11) fold_frequency_counts [OF assms(6,7,8,9)] by (rule strategic_logic_spec)
  finally have "decide_action rng state = spec_action e (spec_fold_freq n_fold n_call n_raise)"
    by (simp add: decide_action_def)
  then show ?thesis
    using spec_action_sure_win strategic_logic_sure_win nonneg_counts_representable [of a b c]
    by simp
qed

section \<open>The theorems of the decision engine on concrete requests\<close>

lemma set_neq_by_member: "x \<in> B \<Longrightarrow> x \<notin> A \<Longrightarrow> A \<noteq> B"
  by auto

lemma example_not_wheel:
  "{2, 14} \<noteq> {14, 2, 3 :: int}" "{2, 3, 7} \<noteq> {14, 2, 3 :: int}" "{2, 7} \<noteq> {14, 2, 3 :: int}"
proof -
  show "{2, 14} \<noteq> {14, 2, 3 :: int}" by (rule set_neq_by_member [of 3]) simp_all
  show "{2, 3, 7} \<noteq> {14, 2, 3 :: int}" by (rule set_neq_by_member [of 14]) simp_all
  show "{2, 7} \<noteq> {14, 2, 3 :: int}" by (rule set_neq_by_member [of 3]) simp_all
qed

lemma example_not_straight:
  "\<not> spec_straight [2, 2, 14]" "\<not> spec_straight [2, 3, 7]" "\<not> spec_straight [2, 2, 7]"
  by (simp_all add: spec_straight_def example_not_wheel)

lemma hands_parseable:
  "parseable ''AH''" "parseable ''AD''" "parseable ''2H''" "parseable ''2D''" "parseable ''2S''"
  "parseable ''3D''" "parseable ''7S''"
  by (simp_all add: parseable_def RANKS_def)

lemma example_high_compare:
  "compare_hands_internal (PList [PStr ''AH'', PStr ''AD'']) (PStr ''AS'')
     (PList (map PStr [''2H'', ''2D''])) = Inr (Fin 1)"
proof -
  have "spec_categorize [14, 14, 14] [CHR ''H'', CHR ''D'', CHR ''S''] = 4"
    "spec_categorize [2, 2, 14] [CHR ''H'', CHR ''D'', CHR ''S''] = 1"
    by (simp_all add: spec_categorize_3 example_not_straight)
  then show ?thesis
    using compare_eq [OF hands_parseable(1) hands_parseable(2) hands_parseable(3)
        hands_parseable(4) example_parseable(5)]
    by (simp add: rank_of_eval suit_of_def spec_compare_def)
qed

lemma example_low_compare:
  "compare_hands_internal (PList [PStr ''2H'', PStr ''3D'']) (PStr ''7S'')
     (PList (map PStr [''2D'', ''2S''])) = Inr (Fin 0)"
proof -
  have "spec_categorize [2, 3, 7] [CHR ''H'', CHR ''D'', CHR ''S''] = 0"
    "spec_categorize [2, 2, 7] [CHR ''D'', CHR ''S'', CHR ''S''] = 1"
    by (simp_all add: spec_categorize_3 example_not_straight)
  then show ?thesis
    using compare_eq [OF hands_parseable(3) hands_parseable(6) hands_parseable(4)
        hands_parseable(5) hands_parseable(7)]
    by (simp add: rank_of_eval suit_of_def spec_compare_def)
qed

lemma example_high_equity:
  "estimate_equity (\<lambda>i. (0, 0)) (PList [PStr ''AH'', PStr ''AD'']) (PStr ''AS'') = Inr (Fin 1)"
proof -
  from deck_example_high obtain more where
    d: "build_deck (PList [PStr ''AH'', PStr ''AD'']) (PStr ''AS'') = Inr (''2H'' # ''2D'' # more)"
    by blast
  show ?thesis
    by (rule estimate_equity_const [OF d random_sample_2_first example_high_compare]) simp
qed

lemma example_low_equity:
  "estimate_equity (\<lambda>i. (0, 0)) (PList [PStr ''2H'', PStr ''3D'']) (PStr ''7S'') = Inr (Fin 0)"
proof -
  from deck_example_low obtain more where
    d: "build_deck (PList [PStr ''2H'', PStr ''3D'']) (PStr ''7S'') = Inr (''2D'' # ''2S'' # more)"
    by blast
  show ?thesis
    by (rule estimate_equity_const [OF d random_sample_2_first example_low_compare]) simp
qed

lemma spec_fold_freq_example: "spec_fold_freq 3 2 5 = float_literal (30 / 100)"
  unfolding spec_fold_freq_def literal_values
  by (simp add: spec_clamp_def float_of_rat_def float_eval float_gt_def)

lemma example_counts:
  "count_of [(''fold'', PInt 3), (''call'', PInt 2), (''raise'', PInt 5)] ''fold'' = Some 3"
  "count_of [(''fold'', PInt 3), (''call'', PInt 2), (''raise'', PInt 5)] ''call'' = Some 2"
  "count_of [(''fold'', PInt 3), (''call'', PInt 2), (''raise'', PInt 5)] ''raise'' = Some 5"
  by (simp_all add: count_of_def)

lemma equity_thresholds:
  "float_lt (Fin 0) (float_literal (35 / 100))" "\<not> float_lt (Fin 1) (float_literal (35 / 100))"
  unfolding literal_values by simp_all

theorem trash_filter_folds_witness:
  "estimate_equity (\<lambda>i. (0, 0)) (PList [PStr ''2H'', PStr ''3D'']) (PStr ''7S'') = Inr (Fin 0)
   \<and> float_lt (Fin 0) (float_literal (35 / 100))
   \<and> decide_action (\<lambda>i. (0, 0))
        (PDict [(''your_hole'', PList [PStr ''2H'', PStr ''3D'']), (''table_card'', PStr ''7S''),
                (''opponent_stats'', PInt 7)]) = ''FOLD''"
proof -
  let ?state = "PDict [(''your_hole'', PList [PStr ''2H'', PStr ''3D'']),
    (''table_card'', PStr ''7S''), (''opponent_stats'', PInt 7)]"
  have g: "py_get ?state ''your_hole'' (PList []) = Inr (PList [PStr ''2H'', PStr ''3D''])"
    "py_get ?state ''table_card'' (PStr []) = Inr (PStr ''7S'')"
    by simp_all
  have t: "py_truthy (PList [PStr ''2H'', PStr ''3D''])" "py_truthy (PStr ''7S'')"
    by simp_all
  from trash_filter_folds [OF g t example_low_equity equity_thresholds(1)]
  show ?thesis using example_low_equity equity_thresholds(1) by simp
qed

lemma example_ratio: "3 + 2 + 5 \<le> (5::int) \<or> ratio_representable 3 (3 + 2 + 5)"
  using nonneg_counts_representable [of 3 2 5] by simp

lemma fold_frequency_null: "fold_frequency PNone = Inl AttributeError"
  by (simp add: fold_frequency_def)

lemma ev_call_corner:
  "ev_call_of (float_literal (35 / 100)) (float_literal (5 / 100))
     = Fin (- (4233383649728267 / 2 ^ 53))"
  unfolding literal_values ev_call_of_def
  by (simp add: float_sub_def float_of_rat_def float_eval)

lemma float_of_rat_overflow:
  assumes "2 ^ 1024 \<le> x"
  shows "float_of_rat x = PosInf"
proof -
  have "round_binary64 (of_int 1 * 2 powi 1024) = of_int 1 * 2 powi 1024"
    by (rule round_binary64_exact) simp_all
  then have e: "round_binary64 (2 ^ 1024) = 2 ^ 1024" by simp
  have "round_binary64 (2 ^ 1024) \<le> round_binary64 x"
    using assms by (rule round_binary64_mono)
  then have "2 ^ 1024 \<le> round_binary64 x" using e by simp
  then show ?thesis by (simp add: float_of_rat_def Let_def)
qed

lemma big_ratio: "float_of_rat (of_int (2 ^ 1030) / of_int 6) = PosInf"
proof -
  have "(2::rat) ^ 1030 = 2 ^ 1024 * 2 ^ 6" by (simp flip: power_add)
  then have "(2::rat) ^ 1024 \<le> of_int (2 ^ 1030) / of_int 6" by simp
  then show ?thesis by (rule float_of_rat_overflow)
qed

lemma big_counts:
  "count_of [(''fold'', PInt (2 ^ 1030)), (''call'', PInt (- (2 ^ 1030))), (''raise'', PInt 6)]
     ''fold'' = Some (2 ^ 1030)"
  "count_of [(''fold'', PInt (2 ^ 1030)), (''call'', PInt (- (2 ^ 1030))), (''raise'', PInt 6)]
     ''call'' = Some (- (2 ^ 1030))"
  "count_of [(''fold'', PInt (2 ^ 1030)), (''call'', PInt (- (2 ^ 1030))), (''raise'', PInt 6)]
     ''raise'' = Some 6"
  by (simp_all add: count_of_def)

lemma big_sum: "(2::int) ^ 1030 + - (2 ^ 1030) + 6 = 6"
  by simp

lemma big_fold_frequency:
  "fold_frequency
     (PDict [(''fold'', PInt (2 ^ 1030)), (''call'', PInt (- (2 ^ 1030))), (''raise'', PInt 6)])
   = Inl OverflowError"
proof (rule fold_frequency_overflow [OF big_counts])
  show "5 < (2::int) ^ 1030 + - (2 ^ 1030) + 6" unfolding big_sum by simp
  show "\<not> ratio_representable (2 ^ 1030) (2 ^ 1030 + - (2 ^ 1030) + 6)"
    unfolding big_sum ratio_representable_def big_ratio by simp
qed

lemma ev_one_high:
  "ev_call_of (Fin 1) (Fin (4278419646001971 / 2 ^ 52)) = Fin 2"
  "ev_raise_of (Fin 1) (Fin (4278419646001971 / 2 ^ 52)) = Fin 3"
  unfolding ev_call_of_def ev_raise_of_def
  by (simp_all add: float_sub_def float_of_rat_def float_eval)

lemma big_spec_fold_freq:
  "spec_fold_freq (2 ^ 1030) (- (2 ^ 1030)) 6 = Fin (4278419646001971 / 2 ^ 52)"
  unfolding spec_fold_freq_def Let_def big_sum big_ratio literal_values
  by (simp add: spec_clamp_def float_gt_def)

lemma big_spec_action:
  "spec_action (Fin 1) (spec_fold_freq (2 ^ 1030) (- (2 ^ 1030)) 6) = ''RAISE''"
  unfolding big_spec_fold_freq spec_action_eq literal_values ev_one_high
    raise_threshold_default float_gt_def
  by simp

lemma fault_attribute: "decide_action_body (\<lambda>i. (0, 0)) (PList []) = Inl AttributeError"
  by (simp add: decide_action_body_def)

lemma fault_type:
  "decide_action_body (\<lambda>i. (0, 0))
     (PDict [(''your_hole'', PInt 5), (''table_card'', PStr ''AS'')]) = Inl TypeError"
proof -
  have "build_deck (PInt 5) (PStr ''AS'') = Inl TypeError"
    unfolding build_deck_def by (subst all_cards_head) simp
  then show ?thesis
    by (simp add: decide_action_body_def estimate_equity_def)
qed

lemma fault_key:
  "decide_action_body (\<lambda>i. (0, 0))
     (PDict [(''your_hole'', PList [PStr ''XH'', PStr ''AD'']), (''table_card'', PStr ''AS'')])
   = Inl KeyError"
proof -
  have "\<exists>more. build_deck (PList [PStr ''XH'', PStr ''AD'']) (PStr ''AS'')
      = Inr (''2H'' # ''2D'' # more)"
    unfolding build_deck_list by (subst all_cards_head) simp
  then obtain more where
    d: "build_deck (PList [PStr ''XH'', PStr ''AD'']) (PStr ''AS'') = Inr (''2H'' # ''2D'' # more)"
    by blast
  have "parse_card (PStr ''XH'') = Inl KeyError"
    by (simp add: parse_card_def rank_value_lookup_def RANK_VALUE_eval)
  then have "hand_category (PList [PStr ''XH'', PStr ''AD'']) (PStr ''AS'') = Inl KeyError"
    by (simp add: hand_category_def)
  then have c: "compare_hands_internal (PList [PStr ''XH'', PStr ''AD'']) (PStr ''AS'') opp
      = Inl KeyError" for opp
    by (simp add: compare_hands_internal_def)
  have s800: "sims = Suc 799" by (simp add: sims_def)
  have "simulate (Suc 799) (\<lambda>i. (0, 0)) (''2H'' # ''2D'' # more)
      (PList [PStr ''XH'', PStr ''AD'']) (PStr ''AS'') (PInt 0) = Inl KeyError"
    by (simp only: simulate.simps random_sample_2_first and_then_simps c)
  then have "estimate_equity (\<lambda>i. (0, 0)) (PList [PStr ''XH'', PStr ''AD'']) (PStr ''AS'')
      = Inl KeyError"
    by (simp add: estimate_equity_def d s800)
  then show ?thesis
    by (simp add: decide_action_body_def)
qed

lemma not_an_action: "''BLUFF'' \<notin> {''FOLD'', ''CALL'', ''RAISE''}"
  by simp

theorem decide_action_never_raises_witness:
  "decide_action_body (\<lambda>i. (0, 0)) (PList []) = Inl AttributeError
   \<and> decide_action (\<lambda>i. (0, 0)) (PList []) = ''FOLD''
   \<and> decide_action_body (\<lambda>i. (0, 0))
        (PDict [(''your_hole'', PInt 5), (''table_card'', PStr ''AS'')]) = Inl TypeError
   \<and> decide_action (\<lambda>i. (0, 0))
        (PDict [(''your_hole'', PInt 5), (''table_card'', PStr ''AS'')]) = ''FOLD''
   \<and> decide_action_body (\<lambda>i. (0, 0))
        (PDict [(''your_hole'', PList [PStr ''XH'', PStr ''AD'']), (''table_card'', PStr ''AS'')])
       = Inl KeyError
   \<and> decide_action (\<lambda>i. (0, 0))
        (PDict [(''your_hole'', PList [PStr ''XH'', PStr ''AD'']), (''table_card'', PStr ''AS'')])
       = ''FOLD''
   \<and> coerce_action ''BLUFF'' = ''CALL''
   \<and> main_action (\<lambda>i. (0, 0)) (Some (PList [])) = ''FOLD''"
proof -
  note t1 = decide_action_never_raises [of "\<lambda>i. (0, 0)" "PList []" "''BLUFF''" "Some (PList [])"]
  note t2 = decide_action_never_raises [of "\<lambda>i. (0, 0)"
    "PDict [(''your_hole'', PInt 5), (''table_card'', PStr ''AS'')]" "''BLUFF''" None]
  note t3 = decide_action_never_raises [of "\<lambda>i. (0, 0)"
    "PDict [(''your_hole'', PList [PStr ''XH'', PStr ''AD'']), (''table_card'', PStr ''AS'')]"
    "''BLUFF''" None]
  have 1: "decide_action (\<lambda>i. (0, 0)) (PList []) = ''FOLD''"
    using t1 fault_attribute by blast
  have 2: "decide_action (\<lambda>i. (0, 0))
        (PDict [(''your_hole'', PInt 5), (''table_card'', PStr ''AS'')]) = ''FOLD''"
    using t2 fault_type by blast
  have 3: "decide_action (\<lambda>i. (0, 0))
        (PDict [(''your_hole'', PList [PStr ''XH'', PStr ''AD'']), (''table_card'', PStr ''AS'')])
       = ''FOLD''"
    using t3 fault_key by blast
  have 4: "coerce_action ''BLUFF'' = ''CALL''"
    using t1 not_an_action by blast
  have 5: "main_action (\<lambda>i. (0, 0)) (Some (PList [])) = ''FOLD''"
    using t1 1 by (simp add: coerce_action_def)
  from 1 2 3 4 5 fault_attribute fault_type fault_key show ?thesis by simp
qed

lemma example_state_gets:
  "py_get (PDict [(''your_hole'', PList [PStr ''AH'', PStr ''AD'']), (''table_card'', PStr ''AS''),
                  (''opponent_stats'', stats)]) ''your_hole'' (PList [])
     = Inr (PList [PStr ''AH'', PStr ''AD''])"
  "py_get (PDict [(''your_hole'', PList [PStr ''AH'', PStr ''AD'']), (''table_card'', PStr ''AS''),
                  (''opponent_stats'', stats)]) ''table_card'' (PStr [])
     = Inr (PStr ''AS'')"
  "py_get (PDict [(''your_hole'', PList [PStr ''AH'', PStr ''AD'']), (''table_card'', PStr ''AS''),
                  (''opponent_stats'', stats)]) ''opponent_stats'' (PDict [])
     = Inr stats"
  by simp_all

lemma example_truthy: "py_truthy (PList [PStr ''AH'', PStr ''AD''])" "py_truthy (PStr ''AS'')"
  by simp_all

lemma example_body:
  "decide_action_body (\<lambda>i. (0, 0))
     (PDict [(''your_hole'', PList [PStr ''AH'', PStr ''AD'']), (''table_card'', PStr ''AS''),
             (''opponent_stats'', stats)])
   = strategic_logic (Fin 1) stats"
  by (rule decide_action_body_valid [OF example_state_gets example_truthy example_high_equity])

lemma exact_corner: "exact_ev_call (5 / 100) (35 / 100) = - (47 / 100)"
  by (simp add: exact_ev_call_def)

lemma corner_below: "- (4233383649728267 / 2 ^ 53) < (- (47 / 100) :: rat)"
  by simp

theorem fold_fallback_unreachable_witness:
  "estimate_equity (\<lambda>i. (0, 0)) (PList [PStr ''AH'', PStr ''AD'']) (PStr ''AS'') = Inr (Fin 1)
   \<and> decide_action (\<lambda>i. (0, 0))
        (PDict [(''your_hole'', PList [PStr ''AH'', PStr ''AD'']), (''table_card'', PStr ''AS''),
                (''opponent_stats'',
                   PDict [(''fold'', PInt 3), (''call'', PInt 2), (''raise'', PInt 5)])])
       \<in> {''CALL'', ''RAISE''}
   \<and> decide_action_body (\<lambda>i. (0, 0))
        (PDict [(''your_hole'', PList [PStr ''AH'', PStr ''AD'']), (''table_card'', PStr ''AS''),
                (''opponent_stats'', PNone)]) = Inl AttributeError
   \<and> decide_action (\<lambda>i. (0, 0))
        (PDict [(''your_hole'', PList [PStr ''AH'', PStr ''AD'']), (''table_card'', PStr ''AS''),
                (''opponent_stats'', PNone)]) = ''FOLD''
   \<and> - (47 / 100) \<le> exact_ev_call (5 / 100) (35 / 100)"
proof -
  let ?counts = "[(''fold'', PInt 3), (''call'', PInt 2), (''raise'', PInt 5)]"
  note f = fold_frequency_counts [OF example_counts example_ratio]
  note a = fold_fallback_unreachable [OF example_state_gets example_truthy example_high_equity
      equity_thresholds(2), of "PDict ?counts" "35 / 100" "5 / 100"]
  note b = fold_fallback_unreachable [OF example_state_gets example_truthy example_high_equity
      equity_thresholds(2), of PNone "35 / 100" "5 / 100"]
  from a f have 1: "decide_action (\<lambda>i. (0, 0))
        (PDict [(''your_hole'', PList [PStr ''AH'', PStr ''AD'']), (''table_card'', PStr ''AS''),
                (''opponent_stats'', PDict ?counts)]) \<in> {''CALL'', ''RAISE''}"
    by blast
  from b fold_frequency_null have 2: "decide_action_body (\<lambda>i. (0, 0))
        (PDict [(''your_hole'', PList [PStr ''AH'', PStr ''AD'']), (''table_card'', PStr ''AS''),
                (''opponent_stats'', PNone)]) = Inl AttributeError
     \<and> decide_action (\<lambda>i. (0, 0))
        (PDict [(''your_hole'', PList [PStr ''AH'', PStr ''AD'']), (''table_card'', PStr ''AS''),
                (''opponent_stats'', PNone)]) = ''FOLD''"
    by blast
  from a have 3: "- (47 / 100) \<le> exact_ev_call (5 / 100) (35 / 100)"
    by simp
  from 1 2 3 example_high_equity show ?thesis by blast
qed

text \<open>
  A request at which claim C9, as it is stated, fails.  With the hole AH AD and the table
  card AS the validation passes and every simulated showdown is won, so the computed
  equity is 1.0; the opponent statistics are the JSON value \<open>null\<close>, reading a count from
  them raises, and the handler returns FOLD, neither CALL nor RAISE.  Moreover, at
  equity 0.35 and fold frequency 0.05 the computed \<open>ev_call\<close> is the float
  -4233383649728267 / 2^53, which is below -0.47.
\<close>

theorem fold_fallback_counterexample:
  "py_truthy (PList [PStr ''AH'', PStr ''AD'']) \<and> py_truthy (PStr ''AS'')
   \<and> estimate_equity (\<lambda>i. (0, 0)) (PList [PStr ''AH'', PStr ''AD'']) (PStr ''AS'') = Inr (Fin 1)
   \<and> \<not> float_lt (Fin 1) (float_literal (35 / 100))
   \<and> decide_action (\<lambda>i. (0, 0))
        (PDict [(''your_hole'', PList [PStr ''AH'', PStr ''AD'']), (''table_card'', PStr ''AS''),
                (''opponent_stats'', PNone)]) = ''FOLD''
   \<and> decide_action (\<lambda>i. (0, 0))
        (PDict [(''your_hole'', PList [PStr ''AH'', PStr ''AD'']), (''table_card'', PStr ''AS''),
                (''opponent_stats'', PNone)]) \<notin> {''CALL'', ''RAISE''}
   \<and> ev_call_of (float_literal (35 / 100)) (float_literal (5 / 100))
       = Fin (- (4233383649728267 / 2 ^ 53))
   \<and> - (4233383649728267 / 2 ^ 53) < (- (47 / 100) :: rat)"
proof -
  have "strategic_logic (Fin 1) PNone = Inl AttributeError"
    using equity_thresholds(2) fold_frequency_null by (rule strategic_logic_raised)
  then have "decide_action (\<lambda>i. (0, 0))
        (PDict [(''your_hole'', PList [PStr ''AH'', PStr ''AD'']), (''table_card'', PStr ''AS''),
                (''opponent_stats'', PNone)]) = ''FOLD''"
    by (simp only: decide_action_def example_body sum.case)
  then show ?thesis
    using example_truthy example_high_equity equity_thresholds(2) ev_call_corner corner_below
    by (simp only: simp_thms) simp
qed

theorem decide_action_follows_rule_witness:
  "estimate_equity (\<lambda>i. (0, 0)) (PList [PStr ''AH'', PStr ''AD'']) (PStr ''AS'') = Inr (Fin 1)
   \<and> spec_fold_freq 3 2 5 = float_literal (30 / 100)
   \<and> decide_action (\<lambda>i. (0, 0))
        (PDict [(''your_hole'', PList [PStr ''AH'', PStr ''AD'']), (''table_card'', PStr ''AS''),
                (''opponent_stats'',
                   PDict [(''fold'', PInt 3), (''call'', PInt 2), (''raise'', PInt 5)])])
       = ''RAISE''"
proof -
  from decide_action_follows_rule [OF example_state_gets example_truthy example_counts
      example_ratio example_high_equity equity_thresholds(2)]
  have "decide_action (\<lambda>i. (0, 0))
        (PDict [(''your_hole'', PList [PStr ''AH'', PStr ''AD'']), (''table_card'', PStr ''AS''),
                (''opponent_stats'',
                   PDict [(''fold'', PInt 3), (''call'', PInt 2), (''raise'', PInt 5)])])
      = spec_action (Fin 1) (spec_fold_freq 3 2 5)"
    by blast
  then show ?thesis
    using example_high_equity spec_fold_freq_example
    by (simp only: spec_action_sure_win simp_thms)
qed

text \<open>
  A request at which claim C1, as it is stated, fails.  With the hole AH AD and the table
  card AS the computed equity is 1.0; the opponent statistics count 2^1030 folds,
  -2^1030 calls and 6 raises, six actions in all.  The rule of the specification gives
  the fold frequency 0.95 and the action RAISE; in the code the true division of the
  integers raises \<open>OverflowError\<close> and the handler returns FOLD.
\<close>

theorem decide_action_rule_counterexample:
  "py_truthy (PList [PStr ''AH'', PStr ''AD'']) \<and> py_truthy (PStr ''AS'')
   \<and> estimate_equity (\<lambda>i. (0, 0)) (PList [PStr ''AH'', PStr ''AD'']) (PStr ''AS'') = Inr (Fin 1)
   \<and> \<not> float_lt (Fin 1) (float_literal (35 / 100))
   \<and> 5 < (2 ^ 1030 + - (2 ^ 1030) + 6 :: int)
   \<and> spec_action (Fin 1) (spec_fold_freq (2 ^ 1030) (- (2 ^ 1030)) 6) = ''RAISE''
   \<and> decide_action (\<lambda>i. (0, 0))
        (PDict [(''your_hole'', PList [PStr ''AH'', PStr ''AD'']), (''table_card'', PStr ''AS''),
                (''opponent_stats'',
                   PDict [(''fold'', PInt (2 ^ 1030)), (''call'', PInt (- (2 ^ 1030))),
                          (''raise'', PInt 6)])])
       = ''FOLD''
   \<and> ''FOLD'' \<noteq> ''RAISE''"
proof -
  have "strategic_logic (Fin 1)
      (PDict [(''fold'', PInt (2 ^ 1030)), (''call'', PInt (- (2 ^ 1030))), (''raise'', PInt 6)])
      = Inl OverflowError"
    using equity_thresholds(2) big_fold_frequency by (rule strategic_logic_raised)
  then have d: "decide_action (\<lambda>i. (0, 0))
        (PDict [(''your_hole'', PList [PStr ''AH'', PStr ''AD'']), (''table_card'', PStr ''AS''),
                (''opponent_stats'',
                   PDict [(''fold'', PInt (2 ^ 1030)), (''call'', PInt (- (2 ^ 1030))),
                          (''raise'', PInt 6)])])
       = ''FOLD''"
    by (simp only: decide_action_def example_body sum.case)
  have s: "5 < (2 ^ 1030 + - (2 ^ 1030) + 6 :: int)" unfolding big_sum by simp
  have n: "''FOLD'' \<noteq> ''RAISE''" by simp
  from d s n example_truthy example_high_equity equity_thresholds(2) big_spec_action
  show ?thesis by (simp only: simp_thms)
qed

end
